theory Spec2Isabelle
  imports
    Complex_Main
    "HOL-Library.Word"
    "HOL-Library.Char_ord"
    "HOL-Library.List_Lexorder"
begin

section \<open>Containers of the standard library\<close>

text \<open>
  \<^verbatim>\<open>std::map<K, V>\<close> is an association list kept in ascending key order, so that a
  range-for over the map is a traversal of the list. \<^verbatim>\<open>std::set<K>\<close> is an ascending
  list without duplicates. Strings are compared byte-wise and lexicographically, as
  \<^verbatim>\<open>std::string::compare\<close> does.
\<close>

type_synonym ('k, 'v) std_map = "('k \<times> 'v) list"

text \<open>\<^verbatim>\<open>m.count(k)\<close> (as a truth value) and \<^verbatim>\<open>m.at(k)\<close> (\<open>None\<close> where it throws).\<close>

definition map_count :: "('k, 'v) std_map \<Rightarrow> 'k \<Rightarrow> bool" where
  "map_count m k = (map_of m k \<noteq> None)"

definition map_keys :: "('k, 'v) std_map \<Rightarrow> 'k list" where
  "map_keys m = map fst m"

text \<open>\<^verbatim>\<open>m[k] = f(m[k])\<close>, where \<^verbatim>\<open>m[k]\<close> creates the entry with the default \<open>d\<close> if absent.\<close>

fun map_modify :: "'k::linorder \<Rightarrow> 'v \<Rightarrow> ('v \<Rightarrow> 'v) \<Rightarrow> ('k, 'v) std_map \<Rightarrow> ('k, 'v) std_map" where
  "map_modify k d f [] = [(k, f d)]"
| "map_modify k d f ((k', v) # m) =
     (if k < k' then (k, f d) # (k', v) # m
      else if k = k' then (k', f v) # m
      else (k', v) # map_modify k d f m)"

text \<open>\<^verbatim>\<open>m.emplace(k, v)\<close>: inserts only when the key is absent.\<close>

fun map_emplace :: "'k::linorder \<Rightarrow> 'v \<Rightarrow> ('k, 'v) std_map \<Rightarrow> ('k, 'v) std_map" where
  "map_emplace k v [] = [(k, v)]"
| "map_emplace k v ((k', v') # m) =
     (if k < k' then (k, v) # (k', v') # m
      else if k = k' then (k', v') # m
      else (k', v') # map_emplace k v m)"

text \<open>\<^verbatim>\<open>m.erase(k)\<close>.\<close>

definition map_erase :: "'k \<Rightarrow> ('k, 'v) std_map \<Rightarrow> ('k, 'v) std_map" where
  "map_erase k m = filter (\<lambda>e. fst e \<noteq> k) m"

text \<open>\<^verbatim>\<open>s.insert(x)\<close> on a \<^verbatim>\<open>std::set\<close>.\<close>

fun set_insert :: "'k::linorder \<Rightarrow> 'k list \<Rightarrow> 'k list" where
  "set_insert x [] = [x]"
| "set_insert x (y # ys) =
     (if x < y then x # y # ys
      else if x = y then y # ys
      else y # set_insert x ys)"

section \<open>document.h\<close>

definition MAX_RESULT_DOCUMENT_COUNT :: nat where
  "MAX_RESULT_DOCUMENT_COUNT = 5"

text \<open>
  \<^verbatim>\<open>struct Document { int id; double relevance; int rating; }\<close>. The fields carry the
  prefix \<open>doc_\<close>, since \<open>id\<close> is a constant of HOL and \<open>rating\<close> is also a field of
  \<^verbatim>\<open>DocumentData\<close>. A \<^verbatim>\<open>double\<close> is idealised as a real number: the relevance arithmetic
  (\<open>1 / n\<close>, \<open>+\<close>, \<open>*\<close>, \<open>ln\<close>) is exact here and rounded in the program.
\<close>

record Document =
  doc_id :: int
  doc_relevance :: real
  doc_rating :: int

datatype DocumentStatus = ACTUAL | IRRELEVANT | BANNED | REMOVED

section \<open>string\_processing\<close>

text \<open>
  \<^verbatim>\<open>ss >> word\<close> skips leading white space and then reads up to the next white space
  character or the end of the stream. White space is what \<^verbatim>\<open>std::isspace\<close> accepts in the
  classic locale: the space and the characters 9 to 13.
\<close>

definition is_space :: "char \<Rightarrow> bool" where
  "is_space c = ((of_char c :: nat) = 32 \<or> (9 \<le> (of_char c :: nat) \<and> (of_char c :: nat) \<le> 13))"

text \<open>The first argument is the word read so far.\<close>

fun SplitIntoWords_from :: "string \<Rightarrow> string \<Rightarrow> string list" where
  "SplitIntoWords_from word [] = (if word = [] then [] else [word])"
| "SplitIntoWords_from word (c # cs) =
     (if is_space c
      then (if word = [] then SplitIntoWords_from [] cs else word # SplitIntoWords_from [] cs)
      else SplitIntoWords_from (word @ [c]) cs)"

definition SplitIntoWords :: "string \<Rightarrow> string list" where
  "SplitIntoWords text = SplitIntoWords_from [] text"

fun MakeUniqueNonEmptyStrings_loop :: "string list \<Rightarrow> string list \<Rightarrow> string list" where
  "MakeUniqueNonEmptyStrings_loop [] non_empty_strings = non_empty_strings"
| "MakeUniqueNonEmptyStrings_loop (str # strings) non_empty_strings =
     MakeUniqueNonEmptyStrings_loop strings
       (if str \<noteq> [] then set_insert str non_empty_strings else non_empty_strings)"

definition MakeUniqueNonEmptyStrings :: "string list \<Rightarrow> string list" where
  "MakeUniqueNonEmptyStrings strings = MakeUniqueNonEmptyStrings_loop strings []"

section \<open>search\_server\<close>

text \<open>
  Every \<^verbatim>\<open>throw std::invalid_argument\<close> of the source is one of the first three errors,
  told apart by the place that throws; \<open>OutOfRange\<close> is the \<^verbatim>\<open>std::out_of_range\<close> of a
  failed \<^verbatim>\<open>at()\<close>.
\<close>

datatype error = InvalidText | DuplicateOrInvalidId | InvalidMinusWord | OutOfRange

text \<open>
  The members \<^verbatim>\<open>stop_words_\<close>, \<^verbatim>\<open>word_to_document_freqs_\<close> and \<^verbatim>\<open>documents_\<close> lose their
  trailing underscore, which a name cannot end with here.
\<close>

record DocumentData =
  rating :: int
  status :: DocumentStatus

record SearchServer =
  stop_words :: "string list"
  word_to_document_freqs :: "(string, (int, real) std_map) std_map"
  documents :: "(int, DocumentData) std_map"
  document_ids :: "int list"

record QueryWord =
  data :: string
  is_minus :: bool
  is_stop :: bool

record Query =
  plus_words :: "string list"
  minus_words :: "string list"

text \<open>
  \<^verbatim>\<open>c >= '\0' && c < ' '\<close>. Where \<^verbatim>\<open>char\<close> is signed the bytes 128 to 255 are negative
  and fail the first test; where it is unsigned they fail the second. Both readings are
  given, and \<open>IsValidWord\<close> uses the signed one.
\<close>

definition char_signed :: "char \<Rightarrow> int" where
  "char_signed c = sint (of_char c :: 8 word)"

definition char_unsigned :: "char \<Rightarrow> int" where
  "char_unsigned c = uint (of_char c :: 8 word)"

definition is_control :: "char \<Rightarrow> bool" where
  "is_control c = (char_signed c \<ge> 0 \<and> char_signed c < 32)"

definition IsValidWord :: "string \<Rightarrow> bool" where
  "IsValidWord word = (\<not> list_ex is_control word)"

definition IsStopWord :: "SearchServer \<Rightarrow> string \<Rightarrow> bool" where
  "IsStopWord s word = (word \<in> set (stop_words s))"

text \<open>The constructor: the stop words are validated, every other member starts empty.\<close>

definition SearchServer_ctor :: "string list \<Rightarrow> error + SearchServer" where
  "SearchServer_ctor stop_word_list =
     (let sw = MakeUniqueNonEmptyStrings stop_word_list
      in if list_ex (\<lambda>w. \<not> IsValidWord w) sw then Inl InvalidText
         else Inr \<lparr>stop_words = sw, word_to_document_freqs = [], documents = [],
                   document_ids = []\<rparr>)"

text \<open>The constructor that takes the stop words as one text.\<close>

definition SearchServer_ctor_text :: "string \<Rightarrow> error + SearchServer" where
  "SearchServer_ctor_text stop_words_text = SearchServer_ctor (SplitIntoWords stop_words_text)"

fun SplitIntoWordsNoStop_loop ::
  "SearchServer \<Rightarrow> string list \<Rightarrow> string list \<Rightarrow> error + string list" where
  "SplitIntoWordsNoStop_loop s [] words = Inr words"
| "SplitIntoWordsNoStop_loop s (word # rest) words =
     (if \<not> IsValidWord word then Inl InvalidText
      else SplitIntoWordsNoStop_loop s rest (if \<not> IsStopWord s word then words @ [word] else words))"

definition SplitIntoWordsNoStop :: "SearchServer \<Rightarrow> string \<Rightarrow> error + string list" where
  "SplitIntoWordsNoStop s text = SplitIntoWordsNoStop_loop s (SplitIntoWords text) []"

text \<open>
  \<^verbatim>\<open>std::accumulate\<close> with the initial value \<^verbatim>\<open>0\<close> forms the sum in \<^verbatim>\<open>int\<close>, which is 32 bits
  wide: the sum wraps around where it overflows, as it does in the compiled program (the
  language leaves a signed overflow undefined). The division of C++ truncates towards
  zero. The vector is taken to hold fewer than \<open>2 ^ 31\<close> ratings, so that the cast of its
  size to \<^verbatim>\<open>int\<close> changes nothing.
\<close>

definition ComputeAverageRating :: "int list \<Rightarrow> int" where
  "ComputeAverageRating ratings =
     (if ratings = [] then 0
      else let rating_sum = sint (foldl (+) 0 (map word_of_int ratings) :: 32 word)
           in sgn rating_sum * (\<bar>rating_sum\<bar> div int (length ratings)))"

definition GetDocumentCount :: "SearchServer \<Rightarrow> int" where
  "GetDocumentCount s = int (length (documents s))"

definition GetDocumentId :: "SearchServer \<Rightarrow> int \<Rightarrow> error + int" where
  "GetDocumentId s index =
     (if 0 \<le> index \<and> nat index < length (document_ids s) then Inr (document_ids s ! nat index)
      else Inl OutOfRange)"

text \<open>
  \<^verbatim>\<open>AddDocument\<close> returns the error it throws, if any, together with the state the server
  is left in. For a document without words the quotient \<open>inv_word_count\<close> is infinite in
  the program and 0 here; the loop over the words does not run, and the value is not used.
\<close>

definition add_word :: "int \<Rightarrow> real \<Rightarrow> string \<Rightarrow>
    (string, (int, real) std_map) std_map \<Rightarrow> (string, (int, real) std_map) std_map" where
  "add_word document_id inv_word_count word m =
     map_modify word [] (map_modify document_id 0 (\<lambda>tf. tf + inv_word_count)) m"

definition AddDocument ::
  "SearchServer \<Rightarrow> int \<Rightarrow> string \<Rightarrow> DocumentStatus \<Rightarrow> int list \<Rightarrow> error option \<times> SearchServer" where
  "AddDocument s document_id document st ratings =
     (if document_id < 0 \<or> map_count (documents s) document_id
      then (Some DuplicateOrInvalidId, s)
      else case SplitIntoWordsNoStop s document of
        Inl e \<Rightarrow> (Some e, s)
      | Inr words \<Rightarrow>
          let inv_word_count = 1 / real (length words)
          in (None,
              s\<lparr>word_to_document_freqs :=
                   fold (add_word document_id inv_word_count) words (word_to_document_freqs s),
                 documents :=
                   map_emplace document_id
                     \<lparr>rating = ComputeAverageRating ratings, status = st\<rparr> (documents s),
                 document_ids := document_ids s @ [document_id]\<rparr>))"

text \<open>
  \<^verbatim>\<open>text[0]\<close> of an empty \<^verbatim>\<open>std::string\<close> is the terminating null character, so the two
  tests of the first character are false on the empty string.
\<close>

definition starts_with_minus :: "string \<Rightarrow> bool" where
  "starts_with_minus text = (case text of [] \<Rightarrow> False | c # _ \<Rightarrow> c = CHR ''-'')"

definition ParseQueryWord :: "SearchServer \<Rightarrow> string \<Rightarrow> error + QueryWord" where
  "ParseQueryWord s text0 =
     (let minus = starts_with_minus text0;
          text = (if minus then drop 1 text0 else text0)
      in if \<not> IsValidWord text then Inl InvalidText
         else if text = [] \<or> starts_with_minus text then Inl InvalidMinusWord
         else Inr \<lparr>data = text, is_minus = minus, is_stop = IsStopWord s text\<rparr>)"

fun ParseQuery_loop :: "SearchServer \<Rightarrow> string list \<Rightarrow> Query \<Rightarrow> error + Query" where
  "ParseQuery_loop s [] query = Inr query"
| "ParseQuery_loop s (word # rest) query =
     (case ParseQueryWord s word of
        Inl e \<Rightarrow> Inl e
      | Inr query_word \<Rightarrow>
          ParseQuery_loop s rest
            (if \<not> is_stop query_word
             then (if is_minus query_word
                   then query\<lparr>minus_words := set_insert (data query_word) (minus_words query)\<rparr>
                   else query\<lparr>plus_words := set_insert (data query_word) (plus_words query)\<rparr>)
             else query))"

definition ParseQuery :: "SearchServer \<Rightarrow> string \<Rightarrow> error + Query" where
  "ParseQuery s text = ParseQuery_loop s (SplitIntoWords text) \<lparr>plus_words = [], minus_words = []\<rparr>"

definition ComputeWordInverseDocumentFreq :: "SearchServer \<Rightarrow> string \<Rightarrow> error + real" where
  "ComputeWordInverseDocumentFreq s word =
     (case map_of (word_to_document_freqs s) word of
        None \<Rightarrow> Inl OutOfRange
      | Some freqs \<Rightarrow> Inr (ln (real_of_int (GetDocumentCount s) * 1 / real (length freqs))))"

type_synonym DocPredicate = "int \<Rightarrow> DocumentStatus \<Rightarrow> int \<Rightarrow> bool"

text \<open>The inner loop of the plus-words: one posting list, with its inverse document frequency.\<close>

fun accumulate_word ::
  "SearchServer \<Rightarrow> DocPredicate \<Rightarrow> real \<Rightarrow> (int, real) std_map \<Rightarrow> (int, real) std_map
     \<Rightarrow> error + (int, real) std_map" where
  "accumulate_word s doc_pred idf [] document_to_relevance = Inr document_to_relevance"
| "accumulate_word s doc_pred idf ((document_id, term_freq) # rest) document_to_relevance =
     (case map_of (documents s) document_id of
        None \<Rightarrow> Inl OutOfRange
      | Some document_info \<Rightarrow>
          accumulate_word s doc_pred idf rest
            (if doc_pred document_id (status document_info) (rating document_info)
             then map_modify document_id 0 (\<lambda>r. r + term_freq * idf) document_to_relevance
             else document_to_relevance))"

fun plus_words_loop ::
  "SearchServer \<Rightarrow> DocPredicate \<Rightarrow> string list \<Rightarrow> (int, real) std_map
     \<Rightarrow> error + (int, real) std_map" where
  "plus_words_loop s doc_pred [] document_to_relevance = Inr document_to_relevance"
| "plus_words_loop s doc_pred (word # rest) document_to_relevance =
     (case map_of (word_to_document_freqs s) word of
        None \<Rightarrow> plus_words_loop s doc_pred rest document_to_relevance
      | Some freqs \<Rightarrow>
          (case ComputeWordInverseDocumentFreq s word of
             Inl e \<Rightarrow> Inl e
           | Inr inverse_document_freq \<Rightarrow>
               (case accumulate_word s doc_pred inverse_document_freq freqs
                       document_to_relevance of
                  Inl e \<Rightarrow> Inl e
                | Inr relevance' \<Rightarrow> plus_words_loop s doc_pred rest relevance')))"

fun minus_words_loop ::
  "SearchServer \<Rightarrow> string list \<Rightarrow> (int, real) std_map \<Rightarrow> (int, real) std_map" where
  "minus_words_loop s [] document_to_relevance = document_to_relevance"
| "minus_words_loop s (word # rest) document_to_relevance =
     (case map_of (word_to_document_freqs s) word of
        None \<Rightarrow> minus_words_loop s rest document_to_relevance
      | Some freqs \<Rightarrow>
          minus_words_loop s rest
            (fold (\<lambda>e m. map_erase (fst e) m) freqs document_to_relevance))"

fun matched_documents_loop ::
  "SearchServer \<Rightarrow> (int, real) std_map \<Rightarrow> Document list \<Rightarrow> error + Document list" where
  "matched_documents_loop s [] matched_documents = Inr matched_documents"
| "matched_documents_loop s ((document_id, relevance) # rest) matched_documents =
     (case map_of (documents s) document_id of
        None \<Rightarrow> Inl OutOfRange
      | Some document_info \<Rightarrow>
          matched_documents_loop s rest
            (matched_documents @
               [\<lparr>doc_id = document_id, doc_relevance = relevance,
                 doc_rating = rating document_info\<rparr>]))"

definition FindAllDocuments ::
  "SearchServer \<Rightarrow> Query \<Rightarrow> DocPredicate \<Rightarrow> error + Document list" where
  "FindAllDocuments s query doc_pred =
     (case plus_words_loop s doc_pred (plus_words query) [] of
        Inl e \<Rightarrow> Inl e
      | Inr document_to_relevance \<Rightarrow>
          matched_documents_loop s (minus_words_loop s (minus_words query) document_to_relevance) [])"

text \<open>
  \<^verbatim>\<open>std::sort\<close> belongs to the standard library, not to the program, and the standard fixes
  no algorithm for it. \<open>std_sort\<close> is the insertion sort that libstdc++ runs on ranges of at
  most 16 elements: each element moves to the front if it goes before the first one, and
  otherwise walks down from the end of the sorted prefix past the elements it goes before.
  The sorted prefix is held back to front. On longer ranges libstdc++ runs an introsort
  first, and other libraries run other algorithms; what all of them share is stated below
  as \<open>sort_contract\<close>.
\<close>

fun unguarded_linear_insert :: "('a \<Rightarrow> 'a \<Rightarrow> bool) \<Rightarrow> 'a \<Rightarrow> 'a list \<Rightarrow> 'a list" where
  "unguarded_linear_insert cmp val [] = [val]"
| "unguarded_linear_insert cmp val (r # rs) =
     (if cmp val r then r # unguarded_linear_insert cmp val rs else val # r # rs)"

fun insertion_sort_loop :: "('a \<Rightarrow> 'a \<Rightarrow> bool) \<Rightarrow> 'a list \<Rightarrow> 'a list \<Rightarrow> 'a list" where
  "insertion_sort_loop cmp [] sorted_rev = sorted_rev"
| "insertion_sort_loop cmp (val # rest) sorted_rev =
     insertion_sort_loop cmp rest
       (if sorted_rev \<noteq> [] \<and> cmp val (last sorted_rev) then sorted_rev @ [val]
        else unguarded_linear_insert cmp val sorted_rev)"

definition std_sort :: "('a \<Rightarrow> 'a \<Rightarrow> bool) \<Rightarrow> 'a list \<Rightarrow> 'a list" where
  "std_sort cmp xs = rev (insertion_sort_loop cmp xs [])"

text \<open>\<^verbatim>\<open>std::numeric_limits<double>::epsilon()\<close> is 2 to the power -52.\<close>

definition double_epsilon :: real where
  "double_epsilon = 1 / 2 ^ 52"

text \<open>
  The comparator of \<^verbatim>\<open>FindTopDocuments\<close>: true when \<open>lhs\<close> goes before \<open>rhs\<close>. The difference
  of the two relevance values is exact here and rounded in the program.
\<close>

definition relevance_before :: "Document \<Rightarrow> Document \<Rightarrow> bool" where
  "relevance_before lhs rhs =
     (if \<bar>doc_relevance lhs - doc_relevance rhs\<bar> < double_epsilon
      then doc_rating lhs > doc_rating rhs
      else doc_relevance lhs > doc_relevance rhs)"

text \<open>\<^verbatim>\<open>resize\<close> to a smaller size keeps the leading elements.\<close>

definition FindTopDocuments :: "SearchServer \<Rightarrow> string \<Rightarrow> DocPredicate \<Rightarrow> error + Document list" where
  "FindTopDocuments s raw_query predict =
     (if \<not> IsValidWord raw_query then Inl InvalidText
      else case ParseQuery s raw_query of
        Inl e \<Rightarrow> Inl e
      | Inr query \<Rightarrow>
          (case FindAllDocuments s query predict of
             Inl e \<Rightarrow> Inl e
           | Inr found \<Rightarrow>
               let matched_documents = std_sort relevance_before found
               in Inr (if length matched_documents > MAX_RESULT_DOCUMENT_COUNT
                       then take MAX_RESULT_DOCUMENT_COUNT matched_documents
                       else matched_documents)))"




text \<open>The overload that takes a status.\<close>

definition FindTopDocuments_status ::
  "SearchServer \<Rightarrow> string \<Rightarrow> DocumentStatus \<Rightarrow> error + Document list" where
  "FindTopDocuments_status s raw_query st =
     (if \<not> IsValidWord raw_query then Inl InvalidText
      else FindTopDocuments s raw_query (\<lambda>document_id doc_status rating. doc_status = st))"

fun match_plus_loop :: "SearchServer \<Rightarrow> int \<Rightarrow> string list \<Rightarrow> string list \<Rightarrow> string list" where
  "match_plus_loop s document_id [] matched_words = matched_words"
| "match_plus_loop s document_id (word # rest) matched_words =
     (case map_of (word_to_document_freqs s) word of
        None \<Rightarrow> match_plus_loop s document_id rest matched_words
      | Some freqs \<Rightarrow>
          match_plus_loop s document_id rest
            (if map_count freqs document_id then matched_words @ [word] else matched_words))"

fun match_minus_loop :: "SearchServer \<Rightarrow> int \<Rightarrow> string list \<Rightarrow> string list \<Rightarrow> string list" where
  "match_minus_loop s document_id [] matched_words = matched_words"
| "match_minus_loop s document_id (word # rest) matched_words =
     (case map_of (word_to_document_freqs s) word of
        None \<Rightarrow> match_minus_loop s document_id rest matched_words
      | Some freqs \<Rightarrow>
          (if map_count freqs document_id then []
           else match_minus_loop s document_id rest matched_words))"

definition MatchDocument ::
  "SearchServer \<Rightarrow> string \<Rightarrow> int \<Rightarrow> error + (string list \<times> DocumentStatus)" where
  "MatchDocument s raw_query document_id =
     (if \<not> IsValidWord raw_query then Inl InvalidText
      else case ParseQuery s raw_query of
        Inl e \<Rightarrow> Inl e
      | Inr query \<Rightarrow>
          let matched_words =
                match_minus_loop s document_id (minus_words query)
                  (match_plus_loop s document_id (plus_words query) [])
          in (case map_of (documents s) document_id of
                None \<Rightarrow> Inl OutOfRange
              | Some document_info \<Rightarrow> Inr (matched_words, status document_info)))"

section \<open>request\_queue\<close>

record QueryResult =
  timestamp :: "64 word"
  results :: int

text \<open>
  The server that the queue refers to is an argument of \<open>AddFindRequest\<close>. The members
  lose their trailing underscore.
\<close>

record RequestQueue =
  requests :: "QueryResult list"
  no_results_requests :: int
  current_time :: "64 word"

definition min_in_day :: int where
  "min_in_day = 1440"

definition RequestQueue_ctor :: RequestQueue where
  "RequestQueue_ctor = \<lparr>requests = [], no_results_requests = 0, current_time = 0\<rparr>"

text \<open>
  The \<^verbatim>\<open>while\<close> loop of \<^verbatim>\<open>AddRequest\<close>, on the deque and the counter. The comparison is
  made in \<^verbatim>\<open>uint64_t\<close>, to which \<^verbatim>\<open>min_in_day_\<close> is converted.
\<close>

fun evict_loop :: "64 word \<Rightarrow> QueryResult list \<Rightarrow> int \<Rightarrow> QueryResult list \<times> int" where
  "evict_loop now [] n = ([], n)"
| "evict_loop now (front # rest) n =
     (if (of_int min_in_day :: 64 word) \<le> now - timestamp front
      then evict_loop now rest (if 0 = results front then n - 1 else n)
      else (front # rest, n))"

definition AddRequest :: "RequestQueue \<Rightarrow> int \<Rightarrow> RequestQueue" where
  "AddRequest q results_num =
     (let now = current_time q + 1;
          (kept, n) = evict_loop now (requests q) (no_results_requests q)
      in \<lparr>requests = kept @ [\<lparr>timestamp = now, results = results_num\<rparr>],
          no_results_requests = (if 0 = results_num then n + 1 else n),
          current_time = now\<rparr>)"

definition GetNoResultRequests :: "RequestQueue \<Rightarrow> int" where
  "GetNoResultRequests q = no_results_requests q"

definition AddFindRequest ::
  "SearchServer \<Rightarrow> RequestQueue \<Rightarrow> string \<Rightarrow> DocPredicate
     \<Rightarrow> (error + Document list) \<times> RequestQueue" where
  "AddFindRequest s q raw_query document_predicate =
     (case FindTopDocuments s raw_query document_predicate of
        Inl e \<Rightarrow> (Inl e, q)
      | Inr result \<Rightarrow> (Inr result, AddRequest q (int (length result))))"

text \<open>The overloads that take a status, or nothing: the status is then \<^verbatim>\<open>ACTUAL\<close>.\<close>

definition AddFindRequest_status ::
  "SearchServer \<Rightarrow> RequestQueue \<Rightarrow> string \<Rightarrow> DocumentStatus
     \<Rightarrow> (error + Document list) \<times> RequestQueue" where
  "AddFindRequest_status s q raw_query st =
     (case FindTopDocuments_status s raw_query st of
        Inl e \<Rightarrow> (Inl e, q)
      | Inr result \<Rightarrow> (Inr result, AddRequest q (int (length result))))"

definition AddFindRequest_default ::
  "SearchServer \<Rightarrow> RequestQueue \<Rightarrow> string \<Rightarrow> (error + Document list) \<times> RequestQueue" where
  "AddFindRequest_default s q raw_query =
     (case FindTopDocuments_status s raw_query ACTUAL of
        Inl e \<Rightarrow> (Inl e, q)
      | Inr result \<Rightarrow> (Inr result, AddRequest q (int (length result))))"

section \<open>Notions used in the statements\<close>

text \<open>
  A caller that adds documents one after the other and catches what \<^verbatim>\<open>AddDocument\<close> throws:
  a failed call leaves the server as \<^verbatim>\<open>AddDocument\<close> left it.
\<close>

type_synonym add_call = "int \<times> string \<times> DocumentStatus \<times> int list"

fun add_documents :: "SearchServer \<Rightarrow> add_call list \<Rightarrow> SearchServer" where
  "add_documents s [] = s"
| "add_documents s ((document_id, document, st, ratings) # calls) =
     add_documents (snd (AddDocument s document_id document st ratings)) calls"

text \<open>The word has a posting list, and the document is in it.\<close>

definition word_in_document :: "SearchServer \<Rightarrow> string \<Rightarrow> int \<Rightarrow> bool" where
  "word_in_document s word document_id =
     (case map_of (word_to_document_freqs s) word of
        None \<Rightarrow> False
      | Some freqs \<Rightarrow> map_count freqs document_id)"

text \<open>
  A token that starts with \<open>-\<close> and, once that character is removed, is empty or starts
  with \<open>-\<close> again.
\<close>

definition malformed_minus_token :: "string \<Rightarrow> bool" where
  "malformed_minus_token token =
     (starts_with_minus token \<and> (drop 1 token = [] \<or> starts_with_minus (drop 1 token)))"

text \<open>A queue that has recorded the given result counts, oldest first.\<close>

fun record_all :: "RequestQueue \<Rightarrow> int list \<Rightarrow> RequestQueue" where
  "record_all q [] = q"
| "record_all q (results_num # rest) = record_all (AddRequest q results_num) rest"

text \<open>The entry that the call number \<open>i\<close> (counted from 0) appends: it is stamped \<open>i + 1\<close>.\<close>

definition entry_of_call :: "nat \<Rightarrow> int \<Rightarrow> QueryResult" where
  "entry_of_call i results_num = \<lparr>timestamp = of_nat (Suc i), results = results_num\<rparr>"

definition all_entries :: "int list \<Rightarrow> QueryResult list" where
  "all_entries rs = map (\<lambda>(i, r). entry_of_call i r) (zip [0..<length rs] rs)"

text \<open>A server without stop words and without documents, for the examples.\<close>

definition no_documents :: SearchServer where
  "no_documents = \<lparr>stop_words = [], word_to_document_freqs = [], documents = [], document_ids = []\<rparr>"

text \<open>A predicate that accepts every document.\<close>

definition any_document :: DocPredicate where
  "any_document document_id doc_status r = True"

text \<open>The two documents of the specification's examples.\<close>

definition two_documents :: SearchServer where
  "two_documents =
     add_documents no_documents
       [(0, ''cat dog'', ACTUAL, [5]), (1, ''cat cat mouse'', ACTUAL, [5])]"

text \<open>The test of the eviction loop, and the number of entries without results.\<close>

definition expired :: "64 word \<Rightarrow> QueryResult \<Rightarrow> bool" where
  "expired now e = ((of_int min_in_day :: 64 word) \<le> now - timestamp e)"

definition zero_results :: "QueryResult list \<Rightarrow> int" where
  "zero_results es = int (length (filter (\<lambda>e. results e = 0) es))"

text \<open>
  The predicate accepts the document: it is in \<^verbatim>\<open>documents_\<close>, and the predicate holds of its
  id, status and rating.
\<close>

definition accepted :: "SearchServer \<Rightarrow> DocPredicate \<Rightarrow> int \<Rightarrow> bool" where
  "accepted s doc_pred i =
     (case map_of (documents s) i of
        None \<Rightarrow> False
      | Some info \<Rightarrow> doc_pred i (status info) (rating info))"

text \<open>
  The invariant of the index. The words are in ascending order; every posting list is
  not empty, has its document ids in ascending order, holds positive term frequencies
  only, and holds only ids of \<^verbatim>\<open>documents_\<close>.
\<close>

definition posting_ok :: "SearchServer \<Rightarrow> (int, real) std_map \<Rightarrow> bool" where
  "posting_ok s freqs =
     (freqs \<noteq> [] \<and> sorted_wrt (<) (map fst freqs)
      \<and> list_all (\<lambda>e. 0 < snd e \<and> map_count (documents s) (fst e)) freqs)"

definition index_ok :: "SearchServer \<Rightarrow> bool" where
  "index_ok s =
     (sorted_wrt (<) (map fst (word_to_document_freqs s))
      \<and> list_all (\<lambda>e. posting_ok s (snd e)) (word_to_document_freqs s))"

text \<open>No posting list holds the document.\<close>

definition never_posted :: "int \<Rightarrow> SearchServer \<Rightarrow> bool" where
  "never_posted i s = list_all (\<lambda>e. \<not> map_count (snd e) i) (word_to_document_freqs s)"





definition stop_word_server :: SearchServer where
  "stop_word_server =
     \<lparr>stop_words = [''in'', ''the''], word_to_document_freqs = [], documents = [], document_ids = []\<rparr>"



section \<open>Characters and words\<close>

lemma sint8_word_of_int: "sint (word_of_int x :: 8 word) = (x + 128) mod 256 - 128"
  by (simp add: int_word_sint)

lemma signed_byte_value:
  fixes x :: int
  assumes "0 \<le> x" "x < 256"
  shows "(x + 128) mod 256 - 128 = (if x < 128 then x else x - 256)"
proof (cases "x < 128")
  case True
  with assms have "(x + 128) mod 256 = x + 128"
    by (intro mod_pos_pos_trivial) linarith+
  with True show ?thesis by simp
next
  case False
  have "(x + 128) mod 256 = (x + 128 - 256) mod 256"
    by (simp only: minus_mod_self2)
  also from False assms have "\<dots> = x + 128 - 256"
    by (intro mod_pos_pos_trivial) linarith+
  finally show ?thesis using False by simp
qed

lemma of_char_word8: "(of_char c :: 8 word) = word_of_int (int (of_char c))"
  by (metis of_nat_of_char of_int_of_nat_eq)

lemma char_signed_eq:
  "char_signed c = (if int (of_char c) < 128 then int (of_char c) else int (of_char c) - 256)"
proof -
  have b: "int (of_char c) < 256"
    using nat_of_char_less_256[of c] by linarith
  show ?thesis
    unfolding char_signed_def of_char_word8 sint8_word_of_int
    by (rule signed_byte_value) (use b in simp_all)
qed

lemma char_unsigned_eq: "char_unsigned c = int (of_char c)"
proof -
  have b: "int (of_char c) < 256"
    using nat_of_char_less_256[of c] by linarith
  have "uint (word_of_int (int (of_char c)) :: 8 word) = int (of_char c) mod 256"
    unfolding uint_word_of_int by simp
  also have "\<dots> = int (of_char c)"
    using b by (intro mod_pos_pos_trivial) simp_all
  finally show ?thesis
    unfolding char_unsigned_def of_char_word8 .
qed

lemma is_control_iff: "is_control c \<longleftrightarrow> (of_char c :: nat) < 32"
proof -
  have "\<not> 256 \<le> (of_char c :: nat)"
    using nat_of_char_less_256[of c] by linarith
  then show ?thesis
    unfolding is_control_def char_signed_eq by auto
qed

text \<open>With an unsigned \<^verbatim>\<open>char\<close> the test selects the same characters.\<close>

lemma is_control_unsigned: "is_control c \<longleftrightarrow> char_unsigned c \<ge> 0 \<and> char_unsigned c < 32"
  unfolding is_control_iff char_unsigned_eq by simp

lemma IsValidWord_iff: "IsValidWord word \<longleftrightarrow> (\<forall>c\<in>set word. 32 \<le> (of_char c :: nat))"
  by (simp add: IsValidWord_def list_ex_iff is_control_iff not_less)

lemma set_SplitIntoWords_from:
  "w \<in> set (SplitIntoWords_from word inp) \<Longrightarrow> set w \<subseteq> set word \<union> set inp"
  by (induction word inp rule: SplitIntoWords_from.induct) (auto split: if_splits)

lemma set_SplitIntoWords: "w \<in> set (SplitIntoWords inp) \<Longrightarrow> set w \<subseteq> set inp"
  using set_SplitIntoWords_from[of w "[]" inp] by (simp add: SplitIntoWords_def)

lemma SplitIntoWords_from_nonempty:
  "w \<in> set (SplitIntoWords_from word inp) \<Longrightarrow> w \<noteq> []"
  by (induction word inp rule: SplitIntoWords_from.induct) (auto split: if_splits)

lemma IsValidWord_token:
  "IsValidWord inp \<Longrightarrow> w \<in> set (SplitIntoWords inp) \<Longrightarrow> IsValidWord w"
  using set_SplitIntoWords[of w inp] by (auto simp: IsValidWord_iff)

lemma SplitIntoWordsNoStop_loop_invalid:
  "\<exists>w\<in>set ws. \<not> IsValidWord w \<Longrightarrow> SplitIntoWordsNoStop_loop s ws acc = Inl InvalidText"
  by (induction ws arbitrary: acc) auto

lemma SplitIntoWordsNoStop_loop_valid:
  "\<forall>w\<in>set ws. IsValidWord w \<Longrightarrow>
   SplitIntoWordsNoStop_loop s ws acc = Inr (acc @ filter (\<lambda>w. \<not> IsStopWord s w) ws)"
  by (induction ws arbitrary: acc) auto

section \<open>Adding documents\<close>

lemma length_map_emplace:
  "\<not> map_count m k \<Longrightarrow> length (map_emplace k v m) = Suc (length m)"
  by (induction m) (auto simp: map_count_def split: if_splits)

lemma AddDocument_fail_state:
  "fst (AddDocument s i doc st rs) \<noteq> None \<Longrightarrow> snd (AddDocument s i doc st rs) = s"
  by (auto simp: AddDocument_def Let_def split: sum.splits if_splits)

lemma AddDocument_ok_count:
  "fst (AddDocument s i doc st rs) = None \<Longrightarrow>
   GetDocumentCount (snd (AddDocument s i doc st rs)) = GetDocumentCount s + 1"
  by (auto simp: AddDocument_def Let_def GetDocumentCount_def length_map_emplace
      split: sum.splits if_splits)

lemma AddDocument_bad_id:
  "i < 0 \<or> map_count (documents s) i \<Longrightarrow>
   AddDocument s i doc st rs = (Some DuplicateOrInvalidId, s)"
  by (simp add: AddDocument_def)

text \<open>Facts that evaluate the splitting and the validity test on a given string.\<close>

lemmas split_eval = SplitIntoWords_def is_space_def
lemmas valid_eval = IsValidWord_def is_control_iff

lemma AddDocument_cat_dog:
  "AddDocument no_documents 0 ''cat dog'' ACTUAL [5] =
     (None, \<lparr>stop_words = [],
              word_to_document_freqs = [(''cat'', [(0, 1 / 2)]), (''dog'', [(0, 1 / 2)])],
              documents = [(0, \<lparr>rating = 5, status = ACTUAL\<rparr>)], document_ids = [0]\<rparr>)"
  by (simp add: AddDocument_def no_documents_def map_count_def SplitIntoWordsNoStop_def
      split_eval valid_eval IsStopWord_def add_word_def ComputeAverageRating_def Let_def)

lemma AddDocument_control_char:
  "AddDocument no_documents 0 [CHR ''a'', CHR 0x01] ACTUAL [5] = (Some InvalidText, no_documents)"
  by (simp add: AddDocument_def no_documents_def map_count_def SplitIntoWordsNoStop_def
      split_eval valid_eval)

text \<open>
  C3. \<^verbatim>\<open>AddDocument\<close> with a negative id, or with an id that \<^verbatim>\<open>documents_\<close> already
  holds, throws the error of the id check and leaves the whole server (postings, document
  table, id list, and with them the document count) as it was. A call that does not throw
  raises \<^verbatim>\<open>GetDocumentCount\<close> by exactly one; a call that throws, for whatever reason,
  leaves the server and so the count unchanged.
\<close>

theorem AddDocument_id_and_count:
  "(i < 0 \<or> map_count (documents s) i \<longrightarrow>
      AddDocument s i doc st rs = (Some DuplicateOrInvalidId, s))
   \<and> (fst (AddDocument s i doc st rs) = None \<longrightarrow>
      GetDocumentCount (snd (AddDocument s i doc st rs)) = GetDocumentCount s + 1)
   \<and> (fst (AddDocument s i doc st rs) \<noteq> None \<longrightarrow>
      snd (AddDocument s i doc st rs) = s
      \<and> GetDocumentCount (snd (AddDocument s i doc st rs)) = GetDocumentCount s)"
  using AddDocument_bad_id[of i s doc st rs] AddDocument_ok_count[of s i doc st rs]
    AddDocument_fail_state[of s i doc st rs]
  by simp

theorem AddDocument_id_and_count_witness:
  "AddDocument no_documents (- 1) ''cat dog'' ACTUAL [5] = (Some DuplicateOrInvalidId, no_documents)
   \<and> fst (AddDocument no_documents 0 ''cat dog'' ACTUAL [5]) = None
   \<and> GetDocumentCount (snd (AddDocument no_documents 0 ''cat dog'' ACTUAL [5]))
       = GetDocumentCount no_documents + 1
   \<and> fst (AddDocument no_documents 0 [CHR ''a'', CHR 0x01] ACTUAL [5]) \<noteq> None
   \<and> snd (AddDocument no_documents 0 [CHR ''a'', CHR 0x01] ACTUAL [5]) = no_documents"
proof -
  have ok: "fst (AddDocument no_documents 0 ''cat dog'' ACTUAL [5]) = None"
    by (simp add: AddDocument_cat_dog)
  have bad: "fst (AddDocument no_documents 0 [CHR ''a'', CHR 0x01] ACTUAL [5]) \<noteq> None"
    by (simp add: AddDocument_control_char)
  show ?thesis
    using AddDocument_id_and_count[of "- 1" no_documents "''cat dog''" ACTUAL "[5]"]
      AddDocument_id_and_count[of 0 no_documents "''cat dog''" ACTUAL "[5]"]
      AddDocument_id_and_count[of 0 no_documents "[CHR ''a'', CHR 0x01]" ACTUAL "[5]"]
      ok bad
    by simp
qed

lemma two_documents_eq:
  "two_documents =
     \<lparr>stop_words = [],
      word_to_document_freqs =
        [(''cat'', [(0, 1 / 2), (1, 2 / 3)]), (''dog'', [(0, 1 / 2)]), (''mouse'', [(1, 1 / 3)])],
      documents = [(0, \<lparr>rating = 5, status = ACTUAL\<rparr>), (1, \<lparr>rating = 5, status = ACTUAL\<rparr>)],
      document_ids = [0, 1]\<rparr>"
  by (simp add: two_documents_def AddDocument_cat_dog)
     (simp add: AddDocument_def map_count_def SplitIntoWordsNoStop_def
      split_eval valid_eval IsStopWord_def add_word_def ComputeAverageRating_def Let_def)

section \<open>Parsing queries\<close>

lemma IsValidWord_Nil: "IsValidWord []"
  by (simp add: IsValidWord_def)

lemma IsValidWord_drop: "IsValidWord w \<Longrightarrow> IsValidWord (drop n w)"
  by (auto simp: IsValidWord_iff dest: in_set_dropD)

lemma IsValidWord_minus_tail:
  "starts_with_minus w \<Longrightarrow> IsValidWord (drop 1 w) \<Longrightarrow> IsValidWord w"
  by (cases w) (auto simp: starts_with_minus_def IsValidWord_iff)

lemma ParseQueryWord_invalid: "\<not> IsValidWord w \<Longrightarrow> ParseQueryWord s w = Inl InvalidText"
  using IsValidWord_minus_tail[of w] by (auto simp: ParseQueryWord_def Let_def)

lemma ParseQueryWord_malformed:
  "IsValidWord w \<Longrightarrow> malformed_minus_token w \<Longrightarrow> ParseQueryWord s w = Inl InvalidMinusWord"
  by (auto simp: ParseQueryWord_def Let_def malformed_minus_token_def IsValidWord_drop
      IsValidWord_Nil)

lemma ParseQueryWord_valid_error:
  "IsValidWord w \<Longrightarrow> ParseQueryWord s w = Inl e \<Longrightarrow> e = InvalidMinusWord"
  by (auto simp: ParseQueryWord_def Let_def IsValidWord_drop IsValidWord_Nil split: if_splits)

lemma malformed_fails: "malformed_minus_token w \<Longrightarrow> isl (ParseQueryWord s w)"
  by (auto simp: ParseQueryWord_def Let_def malformed_minus_token_def)

lemma ParseQuery_loop_fails:
  "\<exists>w\<in>set ws. isl (ParseQueryWord s w) \<Longrightarrow> isl (ParseQuery_loop s ws q)"
  by (induction ws arbitrary: q) (auto split: sum.splits)

text \<open>Among valid tokens the first one that fails decides, and it fails as a minus-word.\<close>

lemma ParseQuery_loop_minus_error:
  "\<forall>w\<in>set ws. IsValidWord w \<Longrightarrow> \<exists>w\<in>set ws. malformed_minus_token w \<Longrightarrow>
   ParseQuery_loop s ws q = Inl InvalidMinusWord"
proof (induction ws arbitrary: q)
  case Nil
  then show ?case by simp
next
  case (Cons w ws)
  show ?case
  proof (cases "ParseQueryWord s w")
    case (Inl e)
    with Cons.prems(1) have "e = InvalidMinusWord"
      using ParseQueryWord_valid_error[of w s e] by simp
    with Inl show ?thesis by simp
  next
    case (Inr qw)
    with Cons.prems have "\<not> malformed_minus_token w"
      using ParseQueryWord_malformed[of w s] by auto
    with Cons.prems have "\<exists>w\<in>set ws. malformed_minus_token w" by auto
    with Cons.IH Cons.prems(1) Inr show ?thesis by simp
  qed
qed

lemma invalid_token_invalid_text:
  "token \<in> set (SplitIntoWords inp) \<Longrightarrow> \<not> IsValidWord token \<Longrightarrow> \<not> IsValidWord inp"
  using IsValidWord_token by blast

lemma AddDocument_invalid_token:
  assumes "token \<in> set (SplitIntoWords doc)" "\<not> IsValidWord token"
  shows "AddDocument s i doc st rs =
           (if i < 0 \<or> map_count (documents s) i then (Some DuplicateOrInvalidId, s)
            else (Some InvalidText, s))"
proof -
  have "SplitIntoWordsNoStop s doc = Inl InvalidText"
    unfolding SplitIntoWordsNoStop_def using assms
    by (intro SplitIntoWordsNoStop_loop_invalid) blast
  then show ?thesis by (simp add: AddDocument_def)
qed

lemma ParseQuery_invalid_token:
  assumes "token \<in> set (SplitIntoWords q)" "\<not> IsValidWord token"
  shows "isl (ParseQuery s q)"
  unfolding ParseQuery_def using assms ParseQueryWord_invalid[of token s]
  by (intro ParseQuery_loop_fails) (auto intro!: bexI[of _ token])

lemma ParseQuery_malformed:
  assumes "token \<in> set (SplitIntoWords q)" "malformed_minus_token token"
  shows "isl (ParseQuery s q)"
    and "IsValidWord q \<Longrightarrow> ParseQuery s q = Inl InvalidMinusWord"
proof -
  show "isl (ParseQuery s q)"
    unfolding ParseQuery_def using assms malformed_fails[of token s]
    by (intro ParseQuery_loop_fails) blast
  show "ParseQuery s q = Inl InvalidMinusWord" if "IsValidWord q"
    unfolding ParseQuery_def using assms that IsValidWord_token[of q]
    by (intro ParseQuery_loop_minus_error) blast+
qed

lemma ParseQueryWord_minus_error:
  "ParseQueryWord s w = Inl InvalidMinusWord \<Longrightarrow> w \<noteq> [] \<Longrightarrow>
   IsValidWord w \<and> malformed_minus_token w"
  using IsValidWord_minus_tail[of w]
  by (auto simp: ParseQueryWord_def Let_def malformed_minus_token_def split: if_splits)

lemma ParseQuery_loop_text_error:
  "\<forall>w\<in>set ws. w \<noteq> [] \<and> (IsValidWord w \<longrightarrow> \<not> malformed_minus_token w) \<Longrightarrow>
   \<exists>w\<in>set ws. \<not> IsValidWord w \<Longrightarrow>
   ParseQuery_loop s ws q = Inl InvalidText"
proof (induction ws arbitrary: q)
  case Nil
  then show ?case by simp
next
  case (Cons w ws)
  show ?case
  proof (cases "IsValidWord w")
    case False
    then show ?thesis by (simp add: ParseQueryWord_invalid)
  next
    case True
    with Cons.prems have nm: "\<not> malformed_minus_token w" "w \<noteq> []" by auto
    from True Cons.prems(2) have ex: "\<exists>w\<in>set ws. \<not> IsValidWord w" by auto
    show ?thesis
    proof (cases "ParseQueryWord s w")
      case (Inl e)
      with True have "e = InvalidMinusWord" by (rule ParseQueryWord_valid_error)
      with Inl nm ParseQueryWord_minus_error[of s w] show ?thesis by blast
    next
      case (Inr qw)
      with Cons.IH[OF _ ex] Cons.prems(1) show ?thesis by simp
    qed
  qed
qed

lemma ParseQuery_text_error:
  assumes "token \<in> set (SplitIntoWords q)" "\<not> IsValidWord token"
    and "\<forall>t\<in>set (SplitIntoWords q). IsValidWord t \<longrightarrow> \<not> malformed_minus_token t"
  shows "ParseQuery s q = Inl InvalidText"
  unfolding ParseQuery_def
proof (rule ParseQuery_loop_text_error)
  show "\<forall>w\<in>set (SplitIntoWords q). w \<noteq> [] \<and> (IsValidWord w \<longrightarrow> \<not> malformed_minus_token w)"
    using assms(3) SplitIntoWords_from_nonempty[of _ "[]" q] by (auto simp: SplitIntoWords_def)
  show "\<exists>w\<in>set (SplitIntoWords q). \<not> IsValidWord w"
    using assms(1,2) by blast
qed

lemma AddDocument_valid_tokens:
  assumes "\<forall>t\<in>set (SplitIntoWords doc). IsValidWord t"
  shows "fst (AddDocument s i doc st rs) =
           (if i < 0 \<or> map_count (documents s) i then Some DuplicateOrInvalidId else None)"
  by (simp add: AddDocument_def SplitIntoWordsNoStop_def SplitIntoWordsNoStop_loop_valid[OF assms]
      Let_def)

text \<open>
  C7, as the specification states it, fails in what it says of the error. The token \<open>a\<close>
  followed by the character 1 fails the test, and \<^verbatim>\<open>AddDocument\<close> with the id \<open>-1\<close> throws the
  error of the id check, which comes first. In the query made of \<open>--\<close>, a space and the
  character 1 the second token fails the test, and \<^verbatim>\<open>ParseQuery\<close> throws the error of the
  malformed minus-word that comes before it. The text \<open>cat\<close>, tabulator, \<open>dog\<close> fails the
  test as a whole, and is ingested: the tabulator separates two tokens, and both pass.
\<close>

theorem invalid_text_error_counterexample:
  "\<not> IsValidWord [CHR ''a'', CHR 0x01]
   \<and> SplitIntoWords [CHR ''a'', CHR 0x01] = [[CHR ''a'', CHR 0x01]]
   \<and> AddDocument no_documents (- 1) [CHR ''a'', CHR 0x01] ACTUAL []
        = (Some DuplicateOrInvalidId, no_documents)
   \<and> \<not> IsValidWord [CHR 0x01]
   \<and> SplitIntoWords [CHR ''-'', CHR ''-'', CHR '' '', CHR 0x01] = [''--'', [CHR 0x01]]
   \<and> ParseQuery no_documents [CHR ''-'', CHR ''-'', CHR '' '', CHR 0x01] = Inl InvalidMinusWord
   \<and> \<not> IsValidWord [CHR ''c'', CHR ''a'', CHR ''t'', CHR 0x09, CHR ''d'', CHR ''o'', CHR ''g'']
   \<and> SplitIntoWords [CHR ''c'', CHR ''a'', CHR ''t'', CHR 0x09, CHR ''d'', CHR ''o'', CHR ''g'']
        = [''cat'', ''dog'']
   \<and> AddDocument no_documents 0
          [CHR ''c'', CHR ''a'', CHR ''t'', CHR 0x09, CHR ''d'', CHR ''o'', CHR ''g''] ACTUAL [5]
        = (None, \<lparr>stop_words = [],
              word_to_document_freqs = [(''cat'', [(0, 1 / 2)]), (''dog'', [(0, 1 / 2)])],
              documents = [(0, \<lparr>rating = 5, status = ACTUAL\<rparr>)], document_ids = [0]\<rparr>)"
  by (simp add: split_eval valid_eval ParseQuery_def ParseQueryWord_def
      starts_with_minus_def IsStopWord_def AddDocument_def no_documents_def map_count_def
      SplitIntoWordsNoStop_def add_word_def ComputeAverageRating_def Let_def)

text \<open>
  C7, amended. \<^verbatim>\<open>IsValidWord\<close> rejects a word exactly when one of its characters has a code
  from 0 up to, but not including, 32: the null character is rejected and the space is
  accepted. In a document the test is made on the tokens, which the white space (the
  space and the characters 9 to 13) separates. A document one of whose tokens fails the
  test is never ingested: \<^verbatim>\<open>AddDocument\<close> throws and leaves the server unchanged; it throws
  the invalid-text error if the id is not negative and not in use, and the error of the
  id check otherwise. A document all of whose tokens pass is ingested if the id is not
  negative and not in use. A query with a token that fails the test fails the test as a
  whole and makes \<^verbatim>\<open>ParseQuery\<close> throw; \<^verbatim>\<open>ParseQuery\<close> throws the invalid-text error if no
  token that passes the test is a malformed minus-token. \<^verbatim>\<open>FindTopDocuments\<close> and
  \<^verbatim>\<open>MatchDocument\<close> test the raw query before they parse it, and throw the invalid-text
  error for every query that fails the test.
\<close>

theorem IsValidWord_control_range:
  "(IsValidWord word \<longleftrightarrow> \<not> (\<exists>c\<in>set word. (of_char c :: nat) < 32))
   \<and> \<not> IsValidWord [CHR 0x00] \<and> IsValidWord [CHR 0x20]
   \<and> (token \<in> set (SplitIntoWords doc) \<and> \<not> IsValidWord token \<longrightarrow>
        AddDocument s i doc st rs =
          (Some (if i < 0 \<or> map_count (documents s) i then DuplicateOrInvalidId
                 else InvalidText), s))
   \<and> ((\<forall>t\<in>set (SplitIntoWords doc). IsValidWord t) \<longrightarrow>
        fst (AddDocument s i doc st rs) =
          (if i < 0 \<or> map_count (documents s) i then Some DuplicateOrInvalidId else None))
   \<and> (token \<in> set (SplitIntoWords q) \<and> \<not> IsValidWord token \<longrightarrow>
        \<not> IsValidWord q
        \<and> isl (ParseQuery s q)
        \<and> ((\<forall>t\<in>set (SplitIntoWords q). IsValidWord t \<longrightarrow> \<not> malformed_minus_token t) \<longrightarrow>
             ParseQuery s q = Inl InvalidText))
   \<and> (\<not> IsValidWord q \<longrightarrow>
        FindTopDocuments s q p = Inl InvalidText
        \<and> FindTopDocuments_status s q st = Inl InvalidText
        \<and> MatchDocument s q i = Inl InvalidText)"
proof -
  have a: "IsValidWord word \<longleftrightarrow> \<not> (\<exists>c\<in>set word. (of_char c :: nat) < 32)"
    by (auto simp: IsValidWord_iff not_le)
  have b: "\<not> IsValidWord [CHR 0x00]" "IsValidWord [CHR 0x20]"
    by (simp_all add: valid_eval)
  have c: "AddDocument s i doc st rs =
          (Some (if i < 0 \<or> map_count (documents s) i then DuplicateOrInvalidId
                 else InvalidText), s)"
    if "token \<in> set (SplitIntoWords doc)" "\<not> IsValidWord token"
    using AddDocument_invalid_token[OF that, of s i st rs] by simp
  have d: "fst (AddDocument s i doc st rs) =
          (if i < 0 \<or> map_count (documents s) i then Some DuplicateOrInvalidId else None)"
    if "\<forall>t\<in>set (SplitIntoWords doc). IsValidWord t"
    using that by (rule AddDocument_valid_tokens)
  have e: "\<not> IsValidWord q \<and> isl (ParseQuery s q)
        \<and> ((\<forall>t\<in>set (SplitIntoWords q). IsValidWord t \<longrightarrow> \<not> malformed_minus_token t) \<longrightarrow>
             ParseQuery s q = Inl InvalidText)"
    if "token \<in> set (SplitIntoWords q)" "\<not> IsValidWord token"
    using ParseQuery_invalid_token[OF that, of s] invalid_token_invalid_text[OF that]
      ParseQuery_text_error[OF that, of s]
    by blast
  have f: "FindTopDocuments s q p = Inl InvalidText
        \<and> FindTopDocuments_status s q st = Inl InvalidText
        \<and> MatchDocument s q i = Inl InvalidText"
    if "\<not> IsValidWord q"
    using that by (simp add: FindTopDocuments_def FindTopDocuments_status_def MatchDocument_def)
  from a b c d e f show ?thesis by blast
qed

theorem IsValidWord_control_range_witness:
  "\<not> IsValidWord [CHR ''a'', CHR 0x1F]
   \<and> (\<exists>c\<in>set [CHR ''a'', CHR 0x1F]. (of_char c :: nat) < 32)
   \<and> [CHR ''a'', CHR 0x1F] \<in> set (SplitIntoWords (''cat '' @ [CHR ''a'', CHR 0x1F]))
   \<and> AddDocument no_documents 0 (''cat '' @ [CHR ''a'', CHR 0x1F]) ACTUAL [5]
       = (Some InvalidText, no_documents)
   \<and> AddDocument no_documents (- 1) (''cat '' @ [CHR ''a'', CHR 0x1F]) ACTUAL [5]
       = (Some DuplicateOrInvalidId, no_documents)
   \<and> fst (AddDocument no_documents 0 ''cat dog'' ACTUAL [5]) = None
   \<and> \<not> IsValidWord (''cat '' @ [CHR ''a'', CHR 0x1F])
   \<and> ParseQuery no_documents (''cat '' @ [CHR ''a'', CHR 0x1F]) = Inl InvalidText
   \<and> FindTopDocuments no_documents (''cat '' @ [CHR ''a'', CHR 0x1F]) any_document
       = Inl InvalidText
   \<and> MatchDocument no_documents (''cat '' @ [CHR ''a'', CHR 0x1F]) 0 = Inl InvalidText"
proof -
  have t: "[CHR ''a'', CHR 0x1F] \<in> set (SplitIntoWords (''cat '' @ [CHR ''a'', CHR 0x1F]))"
    by (simp add: split_eval)
  have v: "\<not> IsValidWord [CHR ''a'', CHR 0x1F]"
    by (simp add: valid_eval)
  have e: "\<exists>c\<in>set [CHR ''a'', CHR 0x1F]. (of_char c :: nat) < 32"
    by simp
  have f: "\<not> map_count (documents no_documents) 0" "\<not> map_count (documents no_documents) (- 1)"
    by (simp_all add: no_documents_def map_count_def)
  have m: "\<forall>t\<in>set (SplitIntoWords (''cat '' @ [CHR ''a'', CHR 0x1F])).
             IsValidWord t \<longrightarrow> \<not> malformed_minus_token t"
    by (simp add: split_eval malformed_minus_token_def starts_with_minus_def)
  have g: "\<forall>t\<in>set (SplitIntoWords ''cat dog''). IsValidWord t"
    by (simp add: split_eval valid_eval)
  note w1 = IsValidWord_control_range[of "[CHR ''a'', CHR 0x1F]" "[CHR ''a'', CHR 0x1F]"
        "''cat '' @ [CHR ''a'', CHR 0x1F]" no_documents 0 ACTUAL "[5]"
        "''cat '' @ [CHR ''a'', CHR 0x1F]" any_document]
  note w2 = IsValidWord_control_range[of "[CHR ''a'', CHR 0x1F]" "[CHR ''a'', CHR 0x1F]"
        "''cat '' @ [CHR ''a'', CHR 0x1F]" no_documents "- 1" ACTUAL "[5]"
        "''cat '' @ [CHR ''a'', CHR 0x1F]" any_document]
  note w3 = IsValidWord_control_range[of "[CHR ''a'', CHR 0x1F]" "[CHR ''a'', CHR 0x1F]"
        "''cat dog''" no_documents 0 ACTUAL "[5]"
        "''cat '' @ [CHR ''a'', CHR 0x1F]" any_document]
  show ?thesis
    using w1 w2 w3 t v e f m g by simp
qed

text \<open>
  C6, as the specification states it, fails where the query also holds a control
  character: the validity tests come first. The token \<open>--\<close> followed by the character 1
  is a malformed minus-token, and so is the lone \<open>-\<close> that follows a token made of the
  character 1; both queries fail with the invalid-text error.
\<close>

theorem malformed_minus_token_counterexample:
  "malformed_minus_token [CHR ''-'', CHR ''-'', CHR 0x01]
   \<and> SplitIntoWords [CHR ''-'', CHR ''-'', CHR 0x01] = [[CHR ''-'', CHR ''-'', CHR 0x01]]
   \<and> ParseQuery no_documents [CHR ''-'', CHR ''-'', CHR 0x01] = Inl InvalidText
   \<and> FindTopDocuments_status no_documents [CHR ''-'', CHR ''-'', CHR 0x01] ACTUAL = Inl InvalidText
   \<and> malformed_minus_token ''-''
   \<and> SplitIntoWords [CHR 0x01, CHR '' '', CHR ''-''] = [[CHR 0x01], ''-'']
   \<and> ParseQuery no_documents [CHR 0x01, CHR '' '', CHR ''-''] = Inl InvalidText
   \<and> FindTopDocuments_status no_documents [CHR 0x01, CHR '' '', CHR ''-''] ACTUAL = Inl InvalidText"
  by (simp add: malformed_minus_token_def starts_with_minus_def split_eval valid_eval
      ParseQuery_def ParseQueryWord_def FindTopDocuments_status_def)

text \<open>
  C6, amended. A query with a malformed minus-token always makes \<^verbatim>\<open>ParseQuery\<close> throw. If
  the query holds no character below 32, the error is that of the malformed minus-word,
  from \<^verbatim>\<open>ParseQuery\<close> and so from \<^verbatim>\<open>FindTopDocuments\<close> and \<^verbatim>\<open>MatchDocument\<close>, whatever the
  server holds and whatever the predicate is: the index is not read and nothing is scored.
  If the query holds such a character, \<^verbatim>\<open>FindTopDocuments\<close> and \<^verbatim>\<open>MatchDocument\<close> throw the
  invalid-text error instead.
\<close>

theorem malformed_minus_token_error:
  "token \<in> set (SplitIntoWords q) \<Longrightarrow> malformed_minus_token token \<Longrightarrow>
   isl (ParseQuery s q)
   \<and> (IsValidWord q \<longrightarrow>
        ParseQuery s q = Inl InvalidMinusWord
        \<and> FindTopDocuments s q p = Inl InvalidMinusWord
        \<and> FindTopDocuments_status s q st = Inl InvalidMinusWord
        \<and> MatchDocument s q i = Inl InvalidMinusWord)
   \<and> (\<not> IsValidWord q \<longrightarrow>
        FindTopDocuments s q p = Inl InvalidText
        \<and> FindTopDocuments_status s q st = Inl InvalidText
        \<and> MatchDocument s q i = Inl InvalidText)"
  using ParseQuery_malformed[of token q s]
  by (simp add: FindTopDocuments_def FindTopDocuments_status_def MatchDocument_def)

theorem malformed_minus_token_error_witness:
  "''--dog'' \<in> set (SplitIntoWords ''cat --dog'') \<and> malformed_minus_token ''--dog''
   \<and> IsValidWord ''cat --dog''
   \<and> ParseQuery no_documents ''cat --dog'' = Inl InvalidMinusWord
   \<and> FindTopDocuments no_documents ''cat --dog'' any_document = Inl InvalidMinusWord
   \<and> MatchDocument no_documents ''cat --dog'' 0 = Inl InvalidMinusWord
   \<and> ''-'' \<in> set (SplitIntoWords [CHR 0x01, CHR '' '', CHR ''-'']) \<and> malformed_minus_token ''-''
   \<and> \<not> IsValidWord [CHR 0x01, CHR '' '', CHR ''-'']
   \<and> FindTopDocuments no_documents [CHR 0x01, CHR '' '', CHR ''-''] any_document = Inl InvalidText"
proof -
  have a: "''--dog'' \<in> set (SplitIntoWords ''cat --dog'')" "malformed_minus_token ''--dog''"
    "IsValidWord ''cat --dog''"
    by (simp_all add: split_eval valid_eval malformed_minus_token_def starts_with_minus_def)
  have b: "''-'' \<in> set (SplitIntoWords [CHR 0x01, CHR '' '', CHR ''-''])" "malformed_minus_token ''-''"
    "\<not> IsValidWord [CHR 0x01, CHR '' '', CHR ''-'']"
    by (simp_all add: split_eval valid_eval malformed_minus_token_def starts_with_minus_def)
  show ?thesis
    using malformed_minus_token_error[OF a(1,2), of no_documents any_document ACTUAL 0]
      malformed_minus_token_error[OF b(1,2), of no_documents any_document ACTUAL 0] a b
    by simp
qed

section \<open>Matching a document\<close>

lemma match_plus_loop_filter:
  "match_plus_loop s i ws acc = acc @ filter (\<lambda>w. word_in_document s w i) ws"
  by (induction ws arbitrary: acc) (auto simp: word_in_document_def split: option.splits)

lemma match_minus_loop_cases:
  "match_minus_loop s i ws acc = (if \<exists>w\<in>set ws. word_in_document s w i then [] else acc)"
  by (induction ws) (auto simp: word_in_document_def split: option.splits)

lemma ParseQuery_cat_minus_dog:
  "ParseQuery two_documents ''cat -dog'' = Inr \<lparr>plus_words = [''cat''], minus_words = [''dog'']\<rparr>"
  by (simp add: ParseQuery_def ParseQueryWord_def starts_with_minus_def split_eval valid_eval
      IsStopWord_def two_documents_eq)

lemma ParseQuery_mouse_cat:
  "ParseQuery two_documents ''mouse cat'' = Inr \<lparr>plus_words = [''cat'', ''mouse''], minus_words = []\<rparr>"
  by (simp add: ParseQuery_def ParseQueryWord_def starts_with_minus_def split_eval valid_eval
      IsStopWord_def two_documents_eq)

text \<open>
  C5. For a query that passes the validity test and parses, and a document id that
  \<^verbatim>\<open>documents_\<close> holds, \<^verbatim>\<open>MatchDocument\<close> returns the empty word list as soon as one
  minus-word of the query has the document in its posting list, however many plus-words
  match; otherwise it returns the plus-words that have the document in their posting
  list, all of them and nothing else, in the order of the set. Either list comes with the
  status of the document.
\<close>

theorem MatchDocument_result:
  "IsValidWord q \<Longrightarrow> ParseQuery s q = Inr query \<Longrightarrow> map_of (documents s) i = Some info \<Longrightarrow>
   MatchDocument s q i =
     Inr (if \<exists>w\<in>set (minus_words query). word_in_document s w i then []
          else filter (\<lambda>w. word_in_document s w i) (plus_words query),
          status info)"
  by (simp add: MatchDocument_def match_plus_loop_filter match_minus_loop_cases)

theorem MatchDocument_result_witness:
  "MatchDocument two_documents ''cat -dog'' 0 = Inr ([], ACTUAL)
   \<and> MatchDocument two_documents ''cat -dog'' 1 = Inr ([''cat''], ACTUAL)
   \<and> MatchDocument two_documents ''mouse cat'' 1 = Inr ([''cat'', ''mouse''], ACTUAL)"
proof -
  have v: "IsValidWord ''cat -dog''" "IsValidWord ''mouse cat''"
    by (simp_all add: valid_eval)
  have d: "map_of (documents two_documents) 0 = Some \<lparr>rating = 5, status = ACTUAL\<rparr>"
    "map_of (documents two_documents) 1 = Some \<lparr>rating = 5, status = ACTUAL\<rparr>"
    by (simp_all add: two_documents_eq)
  have w: "word_in_document two_documents ''cat'' 0" "word_in_document two_documents ''dog'' 0"
    "word_in_document two_documents ''cat'' 1" "\<not> word_in_document two_documents ''dog'' 1"
    "word_in_document two_documents ''mouse'' 1"
    by (simp_all add: word_in_document_def two_documents_eq map_count_def)
  show ?thesis
    using MatchDocument_result[OF v(1) ParseQuery_cat_minus_dog d(1)]
      MatchDocument_result[OF v(1) ParseQuery_cat_minus_dog d(2)]
      MatchDocument_result[OF v(2) ParseQuery_mouse_cat d(2)] w
    by simp
qed

section \<open>The request queue\<close>

lemma evict_loop_eq:
  "evict_loop now es n =
     (dropWhile (expired now) es, n - zero_results (takeWhile (expired now) es))"
  by (induction es arbitrary: n) (auto simp: expired_def zero_results_def)

lemma record_all_snoc: "record_all q (rs @ [r]) = AddRequest (record_all q rs) r"
  by (induction rs arbitrary: q) auto

lemma length_all_entries: "length (all_entries rs) = length rs"
  by (simp add: all_entries_def)

lemma all_entries_snoc: "all_entries (rs @ [r]) = all_entries rs @ [entry_of_call (length rs) r]"
  by (simp add: all_entries_def)

lemma nth_all_entries: "i < length rs \<Longrightarrow> all_entries rs ! i = entry_of_call i (rs ! i)"
  by (simp add: all_entries_def)

lemma map_results_all_entries: "map results (all_entries rs) = rs"
  by (induction rs rule: rev_induct) (auto simp: all_entries_snoc entry_of_call_def all_entries_def)

lemma age_word:
  assumes "i \<le> n"
  shows "(of_nat n + 1 :: 64 word) - of_nat (Suc i) = of_nat (n - i)"
  using assms by (simp add: of_nat_diff)

lemma window_le_word:
  assumes "k < 2 ^ 64"
  shows "(of_int min_in_day :: 64 word) \<le> of_nat k \<longleftrightarrow> 1440 \<le> k"
proof -
  have "unat (of_nat k :: 64 word) = k"
    using assms by (simp add: unat_of_nat)
  moreover have "unat (1440 :: 64 word) = 1440" by simp
  ultimately show ?thesis
    by (simp add: min_in_day_def word_le_nat_alt)
qed

lemma expired_entry:
  assumes "i \<le> n" "n - i \<le> 1440"
  shows "expired (of_nat n + 1) (entry_of_call i r) \<longleftrightarrow> 1440 \<le> n - i"
proof -
  have "n - i < 2 ^ 64" using assms(2) by simp
  then show ?thesis
    unfolding expired_def entry_of_call_def QueryResult.simps age_word[OF assms(1)]
    by (rule window_le_word)
qed

lemma zero_results_append: "zero_results (xs @ ys) = zero_results xs + zero_results ys"
  by (simp add: zero_results_def)

lemma AddRequest_eq:
  "AddRequest q r =
     \<lparr>requests = dropWhile (expired (current_time q + 1)) (requests q)
                   @ [\<lparr>timestamp = current_time q + 1, results = r\<rparr>],
      no_results_requests =
        no_results_requests q - zero_results (takeWhile (expired (current_time q + 1)) (requests q))
          + (if r = 0 then 1 else 0),
      current_time = current_time q + 1\<rparr>"
  by (simp add: AddRequest_def Let_def evict_loop_eq)

lemma AddRequest_counter:
  assumes "no_results_requests q = zero_results (requests q)"
  shows "no_results_requests (AddRequest q r) = zero_results (requests (AddRequest q r))"
proof -
  let ?P = "expired (current_time q + 1)"
  have "zero_results (requests q)
        = zero_results (takeWhile ?P (requests q)) + zero_results (dropWhile ?P (requests q))"
    by (simp flip: zero_results_append)
  with assms show ?thesis
    by (simp add: AddRequest_eq zero_results_append) (simp add: zero_results_def)
qed

lemma dropWhile_none:
  "(xs \<noteq> [] \<Longrightarrow> \<not> P (hd xs)) \<Longrightarrow> dropWhile P xs = xs \<and> takeWhile P xs = []"
  by (cases xs) auto

lemma dropWhile_one:
  assumes "i < length xs" "P (xs ! i)" "Suc i < length xs \<Longrightarrow> \<not> P (xs ! Suc i)"
  shows "dropWhile P (drop i xs) = drop (Suc i) xs \<and> takeWhile P (drop i xs) = [xs ! i]"
proof -
  have d0: "drop i xs = xs ! i # drop (Suc i) xs"
    using assms(1) by (simp add: Cons_nth_drop_Suc)
  have "drop (Suc i) xs \<noteq> [] \<Longrightarrow> \<not> P (hd (drop (Suc i) xs))"
    using assms(3) by (simp add: hd_drop_conv_nth)
  then have "dropWhile P (drop (Suc i) xs) = drop (Suc i) xs \<and> takeWhile P (drop (Suc i) xs) = []"
    by (rule dropWhile_none)
  with assms(2) show ?thesis
    unfolding d0 by simp
qed

lemma record_all_closed_form:
  "current_time (record_all RequestQueue_ctor rs) = of_nat (length rs)
   \<and> requests (record_all RequestQueue_ctor rs) = drop (length rs - 1440) (all_entries rs)
   \<and> no_results_requests (record_all RequestQueue_ctor rs)
       = zero_results (requests (record_all RequestQueue_ctor rs))"
proof (induction rs rule: rev_induct)
  case Nil
  show ?case by (simp add: RequestQueue_ctor_def all_entries_def zero_results_def)
next
  case (snoc r rs)
  define q where "q = record_all RequestQueue_ctor rs"
  define n where "n = length rs"
  define P where "P = expired (current_time q + 1)"
  define es where "es = all_entries rs"
  from snoc have ct: "current_time q = of_nat n"
    and rq: "requests q = drop (n - 1440) es"
    and nr: "no_results_requests q = zero_results (requests q)"
    by (simp_all add: q_def n_def es_def)
  have len: "length es = n"
    by (simp add: es_def n_def length_all_entries)
  have nth: "es ! i = entry_of_call i (rs ! i)" if "i < n" for i
    using that by (simp add: es_def n_def nth_all_entries)
  have P: "P (es ! i) \<longleftrightarrow> 1440 \<le> n - i" if "i < n" "n - i \<le> 1440" for i
    unfolding P_def ct nth[OF that(1)] using that by (intro expired_entry) simp_all
  define k where "k = Suc n - 1440"
  have kept: "dropWhile P (drop (n - 1440) es) = drop k es"
  proof (cases "n < 1440")
    case True
    have "\<not> P (hd es)" if "es \<noteq> []"
    proof -
      from that len have "0 < n" by auto
      with True P[of 0] that show ?thesis by (simp add: hd_conv_nth)
    qed
    with True show ?thesis
      using dropWhile_none[of es P] by (simp add: k_def)
  next
    case False
    then have "dropWhile P (drop (n - 1440) es) = drop (Suc (n - 1440)) es"
      using dropWhile_one[of "n - 1440" es P] P[of "n - 1440"] P[of "Suc (n - 1440)"] len
      by simp
    moreover from False have "k = Suc (n - 1440)" unfolding k_def by linarith
    ultimately show ?thesis by (simp only:)
  qed
  have k_le: "k \<le> length es"
    using len by (simp add: k_def)
  have "requests (AddRequest q r) = drop k (all_entries (rs @ [r]))"
  proof -
    have "requests (AddRequest q r) = drop k es @ [entry_of_call n r]"
      by (simp add: AddRequest_eq rq kept[unfolded P_def ct] entry_of_call_def ct)
    also have "\<dots> = drop k (es @ [entry_of_call n r])"
      using k_le by simp
    finally show ?thesis
      by (simp add: all_entries_snoc es_def n_def)
  qed
  moreover have "current_time (AddRequest q r) = of_nat (Suc n)"
    by (simp add: AddRequest_eq ct)
  moreover note AddRequest_counter[OF nr, of r]
  ultimately show ?case
    by (simp add: record_all_snoc q_def n_def k_def)
qed

lemma unat_word64: "k < 2 ^ 64 \<Longrightarrow> unat (of_nat k :: 64 word) = k"
  by (simp add: unat_of_nat)

lemma unat_stamp:
  assumes "i < n" "n < 2 ^ 64"
  shows "unat (timestamp (entry_of_call i r)) = Suc i"
proof -
  from assms have "Suc i < 2 ^ 64" by linarith
  then show ?thesis
    unfolding entry_of_call_def QueryResult.simps by (rule unat_word64)
qed

lemma stamps_all_entries:
  assumes "length rs < 2 ^ 64"
  shows "map (\<lambda>e. unat (timestamp e)) (all_entries rs) = map Suc [0..<length rs]"
proof (rule nth_equalityI)
  show "length (map (\<lambda>e. unat (timestamp e)) (all_entries rs)) = length (map Suc [0..<length rs])"
    by (simp add: length_all_entries)
next
  fix i assume "i < length (map (\<lambda>e. unat (timestamp e)) (all_entries rs))"
  then have i: "i < length rs" by (simp add: length_all_entries)
  with assms show "map (\<lambda>e. unat (timestamp e)) (all_entries rs) ! i = map Suc [0..<length rs] ! i"
    by (simp add: length_all_entries nth_all_entries unat_stamp[of i "length rs"])
qed

lemma stamps_increasing:
  assumes "length rs < 2 ^ 64"
  shows "sorted_wrt (<) (map (\<lambda>e. unat (timestamp e)) (drop d (all_entries rs)))"
proof -
  have "sorted_wrt (<) (map Suc [0..<length rs])"
    by (simp add: sorted_wrt_map)
  then have "sorted_wrt (<) (drop d (map (\<lambda>e. unat (timestamp e)) (all_entries rs)))"
    unfolding stamps_all_entries[OF assms] by (rule sorted_wrt_drop)
  then show ?thesis by (simp add: drop_map)
qed

lemma stamps_consecutive:
  assumes "Suc k < length (drop d (all_entries rs))"
  shows "timestamp (drop d (all_entries rs) ! Suc k) = timestamp (drop d (all_entries rs) ! k) + 1"
proof -
  from assms have i: "Suc (d + k) < length rs" by (simp add: length_all_entries)
  then have "d + k < length rs" by simp
  with i show ?thesis
    by (simp add: length_all_entries nth_all_entries entry_of_call_def)
qed

lemma age_in_window:
  assumes "e \<in> set (drop (length rs - 1440) (all_entries rs))"
  shows "unat ((of_nat (length rs) :: 64 word) - timestamp e) < 1440"
proof -
  define n where "n = length rs"
  from assms obtain j where j: "j < n - (n - 1440)" "e = all_entries rs ! ((n - 1440) + j)"
    unfolding n_def by (auto simp: in_set_conv_nth length_all_entries)
  define i where "i = (n - 1440) + j"
  from j have i: "i < n" "n - Suc i < 1440" unfolding i_def by linarith+
  then have e: "e = entry_of_call i (rs ! i)"
    using j(2) by (simp add: i_def n_def nth_all_entries)
  have "(of_nat n :: 64 word) - of_nat (Suc i) = of_nat (n - Suc i)"
    using i(1) by (simp add: of_nat_diff)
  moreover have "unat (of_nat (n - Suc i) :: 64 word) = n - Suc i"
    using i(2) by (intro unat_word64) simp
  ultimately show ?thesis
    using i(2) unfolding e entry_of_call_def QueryResult.simps n_def[symmetric] by simp
qed

lemma zero_results_drop_all_entries:
  "zero_results (drop d (all_entries rs)) = int (length (filter (\<lambda>r. r = 0) (drop d rs)))"
proof -
  have "filter (\<lambda>r. r = 0) (map results (drop d (all_entries rs)))
        = map results (filter (\<lambda>e. results e = 0) (drop d (all_entries rs)))"
    by (simp add: filter_map comp_def)
  moreover have "map results (drop d (all_entries rs)) = drop d rs"
    by (simp add: map_results_all_entries flip: drop_map)
  ultimately have "length (filter (\<lambda>r. r = 0) (drop d rs))
        = length (filter (\<lambda>e. results e = 0) (drop d (all_entries rs)))"
    by (metis length_map)
  then show ?thesis by (simp add: zero_results_def)
qed

text \<open>
  C4. Let the queue have recorded the result counts \<open>rs\<close>, one call of \<^verbatim>\<open>AddRequest\<close> each,
  starting from the constructor. After the last call the deque holds exactly the entries
  of the last 1440 calls (the call number \<open>i\<close>, stamped \<open>i + 1\<close>, with its result count):
  an entry stays while its age is below 1440 and is gone once the age reaches 1440. So
  at most 1440 entries are retained, each of age below 1440; every retained timestamp is
  its predecessor plus one tick, and the timestamps increase strictly as numbers as long
  as the 64-bit clock has not wrapped (fewer than \<open>2\<^sup>6\<^sup>4\<close> calls). The counter that
  \<^verbatim>\<open>GetNoResultRequests\<close> returns is the number of retained entries without results, which is
  the number of zeros among the last 1440 result counts.
\<close>

theorem request_log_invariant:
  "q = record_all RequestQueue_ctor rs \<Longrightarrow> n = length rs \<Longrightarrow>
     requests q = drop (n - 1440) (all_entries rs)
   \<and> length (requests q) \<le> 1440
   \<and> (\<forall>e\<in>set (requests q). unat (current_time q - timestamp e) < 1440)
   \<and> (\<forall>k. Suc k < length (requests q) \<longrightarrow>
         timestamp (requests q ! Suc k) = timestamp (requests q ! k) + 1)
   \<and> (n < 2 ^ 64 \<longrightarrow> sorted_wrt (<) (map (\<lambda>e. unat (timestamp e)) (requests q)))
   \<and> GetNoResultRequests q = int (length (filter (\<lambda>e. results e = 0) (requests q)))
   \<and> GetNoResultRequests q = int (length (filter (\<lambda>r. r = 0) (drop (n - 1440) rs)))"
proof -
  assume q: "q = record_all RequestQueue_ctor rs" and n: "n = length rs"
  note cf = record_all_closed_form[of rs, folded q n]
  from cf have rq: "requests q = drop (n - 1440) (all_entries rs)" by simp
  from cf have ct: "current_time q = of_nat n" by simp
  from cf have nr: "GetNoResultRequests q = zero_results (requests q)"
    by (simp add: GetNoResultRequests_def)
  have a: "length (requests q) \<le> 1440"
    unfolding rq by (simp add: length_all_entries n)
  have b: "\<forall>e\<in>set (requests q). unat (current_time q - timestamp e) < 1440"
    unfolding rq ct n using age_in_window[of _ rs] by blast
  have c: "\<forall>k. Suc k < length (requests q) \<longrightarrow>
         timestamp (requests q ! Suc k) = timestamp (requests q ! k) + 1"
    unfolding rq using stamps_consecutive by blast
  have d: "n < 2 ^ 64 \<longrightarrow> sorted_wrt (<) (map (\<lambda>e. unat (timestamp e)) (requests q))"
    unfolding rq n using stamps_increasing by blast
  have e: "GetNoResultRequests q = int (length (filter (\<lambda>e. results e = 0) (requests q)))"
    unfolding nr by (simp add: zero_results_def)
  have f: "GetNoResultRequests q = int (length (filter (\<lambda>r. r = 0) (drop (n - 1440) rs)))"
    unfolding nr rq by (rule zero_results_drop_all_entries)
  from rq a b c d e f show ?thesis by blast
qed

theorem request_log_invariant_witness:
  "GetNoResultRequests (record_all RequestQueue_ctor (0 # replicate 1439 1)) = 1
   \<and> GetNoResultRequests (record_all RequestQueue_ctor (0 # replicate 1440 1)) = 0
   \<and> length (requests (record_all RequestQueue_ctor (0 # replicate 1440 1))) \<le> 1440
   \<and> (1441 :: nat) < 2 ^ 64
   \<and> sorted_wrt (<) (map (\<lambda>e. unat (timestamp e))
         (requests (record_all RequestQueue_ctor (0 # replicate 1440 1))))"
proof -
  note a = request_log_invariant[OF refl refl, of "0 # replicate 1439 1"]
  note b = request_log_invariant[OF refl refl, of "0 # replicate 1440 1"]
  note last = conjunct2[THEN conjunct2, THEN conjunct2, THEN conjunct2, THEN conjunct2,
      THEN conjunct2]
  have small: "(1441 :: nat) < 2 ^ 64" by simp
  have "GetNoResultRequests (record_all RequestQueue_ctor (0 # replicate 1439 1)) = 1"
    using a[THEN last] by (simp del: record_all.simps)
  moreover have "GetNoResultRequests (record_all RequestQueue_ctor (0 # replicate 1440 1)) = 0"
    using b[THEN last] by (simp del: record_all.simps)
  moreover have "length (requests (record_all RequestQueue_ctor (0 # replicate 1440 1))) \<le> 1440"
    by (rule b[THEN conjunct2, THEN conjunct1])
  moreover have "sorted_wrt (<) (map (\<lambda>e. unat (timestamp e))
         (requests (record_all RequestQueue_ctor (0 # replicate 1440 1))))"
    using b[THEN conjunct2, THEN conjunct2, THEN conjunct2, THEN conjunct2, THEN conjunct1]
    by (simp del: record_all.simps)
  ultimately show ?thesis using small by blast
qed

section \<open>Maps and sets\<close>

lemma map_count_iff: "map_count m k \<longleftrightarrow> k \<in> fst ` set m"
  by (simp add: map_count_def map_of_eq_None_iff)

lemma set_set_insert: "set (set_insert x xs) = insert x (set xs)"
  by (induction xs) auto

lemma sorted_set_insert: "sorted_wrt (<) xs \<Longrightarrow> sorted_wrt (<) (set_insert x xs)"
  by (induction xs) (auto simp: set_set_insert)

lemma map_fst_map_modify: "map fst (map_modify k d f m) = set_insert k (map fst m)"
  by (induction m) auto

lemma map_fst_map_emplace: "map fst (map_emplace k v m) = set_insert k (map fst m)"
  by (induction m) auto

lemma keys_map_modify: "fst ` set (map_modify k d f m) = insert k (fst ` set m)"
proof -
  have "set (map fst (map_modify k d f m)) = insert k (set (map fst m))"
    unfolding map_fst_map_modify by (rule set_set_insert)
  then show ?thesis by simp
qed

lemma keys_map_emplace: "fst ` set (map_emplace k v m) = insert k (fst ` set m)"
proof -
  have "set (map fst (map_emplace k v m)) = insert k (set (map fst m))"
    unfolding map_fst_map_emplace by (rule set_set_insert)
  then show ?thesis by simp
qed

lemma map_count_emplace: "map_count (map_emplace k v m) i \<longleftrightarrow> i = k \<or> map_count m i"
  by (simp add: map_count_iff keys_map_emplace)

lemma map_of_map_emplace: "\<not> map_count m k \<Longrightarrow> map_of (map_emplace k v m) k = Some v"
  by (induction m) (auto simp: map_count_def split: if_splits)

lemma set_map_modify_cases:
  "e \<in> set (map_modify k d f m) \<Longrightarrow>
   e \<in> set m \<or> e = (k, f d) \<or> (\<exists>v. (k, v) \<in> set m \<and> e = (k, f v))"
  by (induction m) (auto split: if_splits)

lemma map_modify_not_Nil: "map_modify k d f m \<noteq> []"
  by (cases m) (auto split: if_splits)

lemma keys_map_erase: "fst ` set (map_erase k m) = fst ` set m - {k}"
  by (auto simp: map_erase_def)

lemma set_map_erase: "set (map_erase k m) \<subseteq> set m"
  by (auto simp: map_erase_def)

lemma keys_fold_erase:
  "fst ` set (fold (\<lambda>e m. map_erase (fst e) m) freqs rel) = fst ` set rel - fst ` set freqs"
  by (induction freqs arbitrary: rel) (auto simp: keys_map_erase)

lemma set_fold_erase: "set (fold (\<lambda>e m. map_erase (fst e) m) freqs rel) \<subseteq> set rel"
proof (induction freqs arbitrary: rel)
  case Nil
  show ?case by simp
next
  case (Cons e freqs)
  have "set (fold (\<lambda>e m. map_erase (fst e) m) freqs (map_erase (fst e) rel))
          \<subseteq> set (map_erase (fst e) rel)"
    by (rule Cons.IH)
  with set_map_erase[of "fst e" rel] show ?case by auto
qed

section \<open>Sorting\<close>

lemma set_unguarded_linear_insert: "set (unguarded_linear_insert cmp v rs) = insert v (set rs)"
  by (induction rs) auto

lemma length_unguarded_linear_insert: "length (unguarded_linear_insert cmp v rs) = Suc (length rs)"
  by (induction rs) auto

lemma set_insertion_sort_loop: "set (insertion_sort_loop cmp xs acc) = set xs \<union> set acc"
  by (induction xs arbitrary: acc) (auto simp: set_unguarded_linear_insert)

lemma length_insertion_sort_loop: "length (insertion_sort_loop cmp xs acc) = length xs + length acc"
  by (induction xs arbitrary: acc) (auto simp: length_unguarded_linear_insert)

lemma set_std_sort: "set (std_sort cmp xs) = set xs"
  by (simp add: std_sort_def set_insertion_sort_loop)

lemma length_std_sort: "length (std_sort cmp xs) = length xs"
  by (simp add: std_sort_def length_insertion_sort_loop)

lemma hd_unguarded_linear_insert:
  "hd (unguarded_linear_insert cmp v rs) = (if rs \<noteq> [] \<and> cmp v (hd rs) then hd rs else v)"
  by (cases rs) auto

lemma successively_unguarded_linear_insert:
  assumes "\<And>a b. cmp a b \<Longrightarrow> \<not> cmp b a" "successively (\<lambda>a b. \<not> cmp a b) rs"
  shows "successively (\<lambda>a b. \<not> cmp a b) (unguarded_linear_insert cmp v rs)"
  using assms(2)
proof (induction rs)
  case Nil
  show ?case by simp
next
  case (Cons r rs)
  show ?case
  proof (cases "cmp v r")
    case True
    from Cons.prems have rs: "successively (\<lambda>a b. \<not> cmp a b) rs"
      and hd: "rs \<noteq> [] \<Longrightarrow> \<not> cmp r (hd rs)"
      by (auto simp: successively_Cons)
    have "\<not> cmp r (hd (unguarded_linear_insert cmp v rs))"
      using hd assms(1)[OF True] by (simp add: hd_unguarded_linear_insert)
    with True Cons.IH[OF rs] show ?thesis
      by (simp add: successively_Cons)
  next
    case False
    with Cons.prems show ?thesis by (simp add: successively_Cons)
  qed
qed

lemma successively_insertion_sort_loop:
  assumes "\<And>a b. cmp a b \<Longrightarrow> \<not> cmp b a" "successively (\<lambda>a b. \<not> cmp a b) acc"
  shows "successively (\<lambda>a b. \<not> cmp a b) (insertion_sort_loop cmp xs acc)"
  using assms(2)
proof (induction xs arbitrary: acc)
  case Nil
  then show ?case by simp
next
  case (Cons v xs)
  have "successively (\<lambda>a b. \<not> cmp a b)
          (if acc \<noteq> [] \<and> cmp v (last acc) then acc @ [v] else unguarded_linear_insert cmp v acc)"
  proof (cases "acc \<noteq> [] \<and> cmp v (last acc)")
    case True
    then have "\<not> cmp (last acc) v" using assms(1) by blast
    with True Cons.prems show ?thesis
      by (simp add: successively_append_iff)
  next
    case False
    with successively_unguarded_linear_insert[OF assms(1) Cons.prems, of v] show ?thesis
      by auto
  qed
  from Cons.IH[OF this] show ?case by simp
qed

text \<open>
  After the insertion sort no element goes before its left neighbour, whatever the
  comparator is, if only it is asymmetric.
\<close>

lemma successively_std_sort:
  assumes "\<And>a b. cmp a b \<Longrightarrow> \<not> cmp b a"
  shows "successively (\<lambda>a b. \<not> cmp b a) (std_sort cmp xs)"
  unfolding std_sort_def successively_rev
  by (rule successively_insertion_sort_loop[OF assms]) simp_all

lemma successively_take: "successively P xs \<Longrightarrow> successively P (take n xs)"
  by (auto simp: successively_conv_nth)
















section \<open>Finding documents\<close>

text \<open>The minus-words remove the documents of their posting lists, and nothing else.\<close>

lemma keys_minus_words_loop:
  "fst ` set (minus_words_loop s ws rel)
     = fst ` set rel - {i. \<exists>w\<in>set ws. word_in_document s w i}"
proof (induction ws arbitrary: rel)
  case Nil
  show ?case by simp
next
  case (Cons w ws)
  show ?case
  proof (cases "map_of (word_to_document_freqs s) w")
    case None
    then have "\<not> word_in_document s w i" for i
      by (simp add: word_in_document_def)
    with None Cons.IH[of rel] show ?thesis by auto
  next
    case (Some freqs)
    then have "word_in_document s w i \<longleftrightarrow> i \<in> fst ` set freqs" for i
      by (simp add: word_in_document_def map_count_iff)
    with Some Cons.IH[of "fold (\<lambda>e m. map_erase (fst e) m) freqs rel"] show ?thesis
      by (auto simp: keys_fold_erase)
  qed
qed

lemma set_minus_words_loop: "set (minus_words_loop s ws rel) \<subseteq> set rel"
proof (induction ws arbitrary: rel)
  case Nil
  show ?case by simp
next
  case (Cons w ws)
  show ?case
  proof (cases "map_of (word_to_document_freqs s) w")
    case None
    with Cons.IH[of rel] show ?thesis by simp
  next
    case (Some freqs)
    with Cons.IH[of "fold (\<lambda>e m. map_erase (fst e) m) freqs rel"] set_fold_erase[of freqs rel]
    show ?thesis by auto
  qed
qed

text \<open>A document enters the accumulator only from a posting list, and only if the predicate accepts it.\<close>

lemma keys_accumulate_word:
  "accumulate_word s p idf freqs rel = Inr rel' \<Longrightarrow>
   fst ` set rel' = fst ` set rel \<union> {i \<in> fst ` set freqs. accepted s p i}"
proof (induction freqs arbitrary: rel)
  case Nil
  then show ?case by simp
next
  case (Cons e freqs)
  obtain i tf where e: "e = (i, tf)" by (cases e)
  from Cons.prems e obtain info where info: "map_of (documents s) i = Some info"
    by (auto split: option.splits)
  let ?rel = "if p i (status info) (rating info)
              then map_modify i 0 (\<lambda>r. r + tf * idf) rel else rel"
  from Cons.prems e info have "accumulate_word s p idf freqs ?rel = Inr rel'"
    by simp
  from Cons.IH[OF this] info e show ?case
    by (auto simp: keys_map_modify accepted_def)
qed

lemma keys_plus_words_loop:
  "plus_words_loop s p ws rel = Inr rel' \<Longrightarrow>
   fst ` set rel' = fst ` set rel \<union> {i. accepted s p i \<and> (\<exists>w\<in>set ws. word_in_document s w i)}"
proof (induction ws arbitrary: rel)
  case Nil
  then show ?case by simp
next
  case (Cons w ws)
  show ?case
  proof (cases "map_of (word_to_document_freqs s) w")
    case None
    then have "\<not> word_in_document s w i" for i
      by (simp add: word_in_document_def)
    with None Cons show ?thesis by auto
  next
    case (Some freqs)
    then have w: "word_in_document s w i \<longleftrightarrow> i \<in> fst ` set freqs" for i
      by (simp add: word_in_document_def map_count_iff)
    from Cons.prems Some obtain idf rel1 where
      1: "accumulate_word s p idf freqs rel = Inr rel1" and
      2: "plus_words_loop s p ws rel1 = Inr rel'"
      by (auto split: sum.splits)
    from keys_accumulate_word[OF 1] Cons.IH[OF 2] w show ?thesis
      by auto
  qed
qed

lemma matched_documents_loop_fields:
  "matched_documents_loop s rel acc = Inr docs \<Longrightarrow>
   map (\<lambda>d. (doc_id d, doc_relevance d)) docs = map (\<lambda>d. (doc_id d, doc_relevance d)) acc @ rel"
proof (induction rel arbitrary: acc)
  case Nil
  then show ?case by simp
next
  case (Cons e rel)
  obtain i r where e: "e = (i, r)" by (cases e)
  from Cons.prems e obtain info where info: "map_of (documents s) i = Some info"
    by (auto split: option.splits)
  with Cons.prems e have "matched_documents_loop s rel
      (acc @ [\<lparr>doc_id = i, doc_relevance = r, doc_rating = rating info\<rparr>]) = Inr docs"
    by simp
  from Cons.IH[OF this] e show ?case by simp
qed

lemma FindAllDocuments_ids:
  assumes "FindAllDocuments s query p = Inr docs"
  shows "doc_id ` set docs =
           {i. accepted s p i \<and> (\<exists>w\<in>set (plus_words query). word_in_document s w i)}
             - {i. \<exists>w\<in>set (minus_words query). word_in_document s w i}"
proof -
  from assms obtain rel where
    1: "plus_words_loop s p (plus_words query) [] = Inr rel" and
    2: "matched_documents_loop s (minus_words_loop s (minus_words query) rel) [] = Inr docs"
    by (auto simp: FindAllDocuments_def split: sum.splits)
  from matched_documents_loop_fields[OF 2]
  have "map fst (map (\<lambda>d. (doc_id d, doc_relevance d)) docs)
          = map fst (minus_words_loop s (minus_words query) rel)"
    by simp
  then have "map doc_id docs = map fst (minus_words_loop s (minus_words query) rel)"
    by (simp add: comp_def)
  then have "doc_id ` set docs = fst ` set (minus_words_loop s (minus_words query) rel)"
    by (metis set_map)
  with keys_plus_words_loop[OF 1] show ?thesis
    by (simp add: keys_minus_words_loop)
qed

lemma FindTopDocuments_Inr:
  assumes "FindTopDocuments s q p = Inr docs"
  obtains query found where "IsValidWord q" "ParseQuery s q = Inr query"
    "FindAllDocuments s query p = Inr found"
    "docs = take MAX_RESULT_DOCUMENT_COUNT (std_sort relevance_before found)"
proof -
  from assms have v: "IsValidWord q"
    by (auto simp: FindTopDocuments_def split: if_splits)
  with assms obtain query where pq: "ParseQuery s q = Inr query"
    by (auto simp: FindTopDocuments_def split: sum.splits)
  with assms v obtain found where f: "FindAllDocuments s query p = Inr found"
    by (auto simp: FindTopDocuments_def split: sum.splits)
  with assms v pq have "docs = take MAX_RESULT_DOCUMENT_COUNT (std_sort relevance_before found)"
    by (auto simp: FindTopDocuments_def Let_def split: if_splits)
  with v pq f show ?thesis by (rule that)
qed

lemma FindTopDocuments_ids:
  assumes "FindTopDocuments s q p = Inr docs" "ParseQuery s q = Inr query"
  shows "doc_id ` set docs \<subseteq>
           {i. accepted s p i \<and> (\<exists>w\<in>set (plus_words query). word_in_document s w i)}
             - {i. \<exists>w\<in>set (minus_words query). word_in_document s w i}"
proof -
  from assms(1) obtain query' found where
    "ParseQuery s q = Inr query'" "FindAllDocuments s query' p = Inr found"
    "docs = take MAX_RESULT_DOCUMENT_COUNT (std_sort relevance_before found)"
    by (rule FindTopDocuments_Inr)
  with assms(2) have f: "FindAllDocuments s query p = Inr found"
    and d: "docs = take MAX_RESULT_DOCUMENT_COUNT (std_sort relevance_before found)"
    by simp_all
  have "set docs \<subseteq> set found"
    unfolding d using set_take_subset[of MAX_RESULT_DOCUMENT_COUNT "std_sort relevance_before found"]
    by (simp add: set_std_sort)
  then have "doc_id ` set docs \<subseteq> doc_id ` set found" by blast
  with FindAllDocuments_ids[OF f] show ?thesis by simp
qed

lemma ParseQuery_loop_collects:
  assumes "ParseQuery_loop s ws q0 = Inr query"
  shows "set (plus_words q0) \<subseteq> set (plus_words query)"
    and "set (minus_words q0) \<subseteq> set (minus_words query)"
    and "\<And>t qw. t \<in> set ws \<Longrightarrow> ParseQueryWord s t = Inr qw \<Longrightarrow> \<not> is_stop qw \<Longrightarrow>
           data qw \<in> set (if is_minus qw then minus_words query else plus_words query)"
  using assms
proof (induction ws arbitrary: q0)
  case Nil
  { case 1 then show ?case by simp }
  { case 2 then show ?case by simp }
  { case 3 then show ?case by simp }
next
  case (Cons w ws)
  { case 1
    then obtain qw where qw: "ParseQueryWord s w = Inr qw" by (auto split: sum.splits)
    with 1 Cons(1) show ?case
      by (fastforce simp: set_set_insert split: if_splits) }
  { case 2
    then obtain qw where qw: "ParseQueryWord s w = Inr qw" by (auto split: sum.splits)
    with 2 Cons(2) show ?case
      by (fastforce simp: set_set_insert split: if_splits) }
  { case (3 t qw)
    from 3(4) obtain qw' where qw': "ParseQueryWord s w = Inr qw'" by (auto split: sum.splits)
    let ?q1 = "if \<not> is_stop qw'
             then (if is_minus qw'
                   then q0\<lparr>minus_words := set_insert (data qw') (minus_words q0)\<rparr>
                   else q0\<lparr>plus_words := set_insert (data qw') (plus_words q0)\<rparr>)
             else q0"
    from 3(4) qw' have loop: "ParseQuery_loop s ws ?q1 = Inr query" by simp
    show ?case
    proof (cases "t \<in> set ws")
      case True
      from Cons(3)[OF True 3(2) 3(3) loop] show ?thesis .
    next
      case False
      with 3(1) have "t = w" by simp
      with qw' 3(2) have "qw' = qw" by simp
      with 3(3) Cons(1)[OF loop] Cons(2)[OF loop] show ?thesis
        by (auto simp: set_set_insert)
    qed }
qed

lemma ParseQueryWord_plain:
  "ParseQueryWord s w = Inr qw \<Longrightarrow> \<not> starts_with_minus w \<Longrightarrow>
   qw = \<lparr>data = w, is_minus = False, is_stop = IsStopWord s w\<rparr>"
  by (auto simp: ParseQueryWord_def Let_def split: if_splits)

lemma ParseQueryWord_minus:
  "ParseQueryWord s (CHR ''-'' # w) = Inr qw \<Longrightarrow>
   qw = \<lparr>data = w, is_minus = True, is_stop = IsStopWord s w\<rparr> \<and> \<not> starts_with_minus w"
  by (auto simp: ParseQueryWord_def Let_def starts_with_minus_def split: if_splits)

lemma ParseQuery_loop_Inr_all:
  "ParseQuery_loop s ws q0 = Inr query \<Longrightarrow> t \<in> set ws \<Longrightarrow> \<exists>qw. ParseQueryWord s t = Inr qw"
proof (cases "ParseQueryWord s t")
  case (Inl e)
  assume "ParseQuery_loop s ws q0 = Inr query" "t \<in> set ws"
  with Inl ParseQuery_loop_fails[of ws s q0] show ?thesis
    by (metis isl_def sum.disc(2))
next
  case (Inr qw)
  then show ?thesis by blast
qed

lemma plus_and_minus_word:
  assumes "ParseQuery s q = Inr query"
    "w \<in> set (SplitIntoWords q)" "CHR ''-'' # w \<in> set (SplitIntoWords q)" "\<not> IsStopWord s w"
  shows "w \<in> set (plus_words query)" "w \<in> set (minus_words query)"
proof -
  note loop = assms(1)[unfolded ParseQuery_def]
  from ParseQuery_loop_Inr_all[OF loop assms(3)] obtain qm where
    qm: "ParseQueryWord s (CHR ''-'' # w) = Inr qm" by blast
  from ParseQueryWord_minus[OF qm] have
    qm_eq: "qm = \<lparr>data = w, is_minus = True, is_stop = IsStopWord s w\<rparr>"
    and plain: "\<not> starts_with_minus w" by simp_all
  from ParseQuery_loop_Inr_all[OF loop assms(2)] obtain qp where
    qp: "ParseQueryWord s w = Inr qp" by blast
  from ParseQueryWord_plain[OF qp plain] have
    qp_eq: "qp = \<lparr>data = w, is_minus = False, is_stop = IsStopWord s w\<rparr>" .
  from ParseQuery_loop_collects(3)[OF loop assms(2) qp] assms(4) qp_eq
  show "w \<in> set (plus_words query)" by simp
  from ParseQuery_loop_collects(3)[OF loop assms(3) qm] assms(4) qm_eq
  show "w \<in> set (minus_words query)" by simp
qed




section \<open>The invariant of the index\<close>

lemma fold_add_word_all:
  assumes "\<forall>e\<in>set m. P (snd e)"
    and "\<And>freqs. P freqs \<Longrightarrow> P (map_modify i 0 (\<lambda>tf. tf + c) freqs)"
    and "P (map_modify i 0 (\<lambda>tf. tf + c) [])"
  shows "\<forall>e\<in>set (fold (add_word i c) words m). P (snd e)"
  using assms(1)
proof (induction words arbitrary: m)
  case Nil
  then show ?case by simp
next
  case (Cons w words)
  have "\<forall>e\<in>set (add_word i c w m). P (snd e)"
  proof
    fix e assume "e \<in> set (add_word i c w m)"
    from set_map_modify_cases[OF this[unfolded add_word_def]] Cons.prems assms(2,3)
    show "P (snd e)" by force
  qed
  from Cons.IH[OF this] show ?case by simp
qed

lemma posting_ok_modify:
  assumes "posting_ok s freqs \<or> freqs = []" "0 < c" "map_count (documents s) i"
  shows "posting_ok s (map_modify i 0 (\<lambda>tf. tf + c) freqs)"
proof -
  have sorted: "sorted_wrt (<) (map fst freqs)"
    using assms(1) by (auto simp: posting_ok_def)
  have vals: "\<forall>e\<in>set freqs. 0 < snd e \<and> map_count (documents s) (fst e)"
    using assms(1) by (auto simp: posting_ok_def list_all_iff)
  have "0 < snd e \<and> map_count (documents s) (fst e)"
    if "e \<in> set (map_modify i 0 (\<lambda>tf. tf + c) freqs)" for e
    using set_map_modify_cases[OF that] vals assms(2,3) by force
  then show ?thesis
    unfolding posting_ok_def list_all_iff map_fst_map_modify
    using sorted by (simp add: sorted_set_insert map_modify_not_Nil)
qed

lemma posting_ok_more_documents:
  assumes "posting_ok s freqs" "\<And>i. map_count (documents s) i \<Longrightarrow> map_count (documents s') i"
  shows "posting_ok s' freqs"
  using assms by (auto simp: posting_ok_def list_all_iff)

lemma AddDocument_success:
  assumes "fst (AddDocument s i doc st rs) = None"
  obtains words where "0 \<le> i" "\<not> map_count (documents s) i"
    "SplitIntoWordsNoStop s doc = Inr words"
    "snd (AddDocument s i doc st rs) =
       s\<lparr>word_to_document_freqs :=
            fold (add_word i (1 / real (length words))) words (word_to_document_freqs s),
          documents := map_emplace i \<lparr>rating = ComputeAverageRating rs, status = st\<rparr> (documents s),
          document_ids := document_ids s @ [i]\<rparr>"
  using assms by (auto simp: AddDocument_def Let_def split: if_splits sum.splits)

lemma sorted_fold_add_word:
  "sorted_wrt (<) (map fst m) \<Longrightarrow> sorted_wrt (<) (map fst (fold (add_word i c) words m))"
  by (induction words arbitrary: m) (simp_all add: add_word_def map_fst_map_modify sorted_set_insert)

lemma index_ok_AddDocument:
  assumes "index_ok s"
  shows "index_ok (snd (AddDocument s i doc st rs))"
proof (cases "fst (AddDocument s i doc st rs)")
  case (Some e)
  then have "snd (AddDocument s i doc st rs) = s"
    by (intro AddDocument_fail_state) simp
  with assms show ?thesis by simp
next
  case None
  then obtain words where
    s': "snd (AddDocument s i doc st rs) =
       s\<lparr>word_to_document_freqs :=
            fold (add_word i (1 / real (length words))) words (word_to_document_freqs s),
          documents := map_emplace i \<lparr>rating = ComputeAverageRating rs, status = st\<rparr> (documents s),
          document_ids := document_ids s @ [i]\<rparr>"
    by (rule AddDocument_success)
  define s' where "s' = snd (AddDocument s i doc st rs)"
  have docs: "map_count (documents s') j \<longleftrightarrow> j = i \<or> map_count (documents s) j" for j
    unfolding s'_def s' by (simp add: map_count_emplace)
  have old: "\<forall>e\<in>set (word_to_document_freqs s). posting_ok s' (snd e)"
    using assms docs posting_ok_more_documents[of s _ s']
    by (auto simp: index_ok_def list_all_iff)
  have "\<forall>e\<in>set (fold (add_word i (1 / real (length words))) words (word_to_document_freqs s)).
          posting_ok s' (snd e)"
  proof (cases "words = []")
    case True
    with old show ?thesis by simp
  next
    case False
    then have c: "0 < 1 / real (length words)" by simp
    show ?thesis
    proof (rule fold_add_word_all[OF old])
      fix freqs assume "posting_ok s' freqs"
      then show "posting_ok s' (map_modify i 0 (\<lambda>tf. tf + 1 / real (length words)) freqs)"
        using posting_ok_modify[OF _ c, of s' freqs i] docs by blast
    next
      show "posting_ok s' (map_modify i 0 (\<lambda>tf. tf + 1 / real (length words)) [])"
        using posting_ok_modify[OF _ c, of s' "[]" i] docs by blast
    qed
  qed
  moreover have "sorted_wrt (<)
      (map fst (fold (add_word i (1 / real (length words))) words (word_to_document_freqs s)))"
    using assms by (intro sorted_fold_add_word) (simp add: index_ok_def)
  ultimately show ?thesis
    unfolding index_ok_def list_all_iff s'_def[symmetric]
    by (simp add: s'_def s')
qed

lemma index_ok_add_documents: "index_ok s \<Longrightarrow> index_ok (add_documents s calls)"
  by (induction s calls rule: add_documents.induct) (auto simp: index_ok_AddDocument)

lemma index_ok_ctor: "SearchServer_ctor stop_list = Inr s \<Longrightarrow> index_ok s"
  by (auto simp: SearchServer_ctor_def Let_def index_ok_def split: if_splits)

lemma index_ok_posting:
  assumes "index_ok s" "map_of (word_to_document_freqs s) w = Some freqs"
  shows "posting_ok s freqs"
proof -
  from assms(2) have "(w, freqs) \<in> set (word_to_document_freqs s)"
    by (rule map_of_SomeD)
  with assms(1) have "posting_ok s (snd (w, freqs))"
    unfolding index_ok_def list_all_iff by blast
  then show ?thesis by simp
qed

lemma posting_ok_positive: "posting_ok s freqs \<Longrightarrow> e \<in> set freqs \<Longrightarrow> 0 < snd e"
  by (simp add: posting_ok_def list_all_iff)

lemma posting_ok_document:
  "posting_ok s freqs \<Longrightarrow> e \<in> set freqs \<Longrightarrow> map_count (documents s) (fst e)"
  by (simp add: posting_ok_def list_all_iff)

text \<open>A posting list is never longer than the table of documents.\<close>

lemma posting_length:
  assumes "posting_ok s freqs"
  shows "0 < length freqs" "length freqs \<le> length (documents s)"
proof -
  from assms show "0 < length freqs" by (simp add: posting_ok_def)
  from assms have "distinct (map fst freqs)"
    by (simp add: posting_ok_def strict_sorted_iff)
  then have "length freqs = card (fst ` set freqs)"
    using distinct_card[of "map fst freqs"] by simp
  also have "fst ` set freqs \<subseteq> fst ` set (documents s)"
    using assms by (auto simp: posting_ok_def list_all_iff map_count_iff)
  then have "card (fst ` set freqs) \<le> card (fst ` set (documents s))"
    by (intro card_mono) simp_all
  also have "\<dots> \<le> length (documents s)"
    using card_length[of "map fst (documents s)"] by simp
  finally show "length freqs \<le> length (documents s)" .
qed

lemma idf_nonneg:
  assumes "index_ok s" "map_of (word_to_document_freqs s) w = Some freqs"
  shows "\<exists>idf. ComputeWordInverseDocumentFreq s w = Inr idf \<and> 0 \<le> idf"
proof -
  from assms(2) have "(w, freqs) \<in> set (word_to_document_freqs s)"
    by (rule map_of_SomeD)
  with assms(1) have "posting_ok s (snd (w, freqs))"
    unfolding index_ok_def list_all_iff by blast
  then have ok: "posting_ok s freqs" by simp
  from posting_length[OF ok] have "1 \<le> real (length (documents s)) / real (length freqs)"
    by (simp add: le_divide_eq)
  then have "0 \<le> ln (real (length (documents s)) / real (length freqs))"
    by (rule ln_ge_zero)
  with assms(2) show ?thesis
    by (simp add: ComputeWordInverseDocumentFreq_def GetDocumentCount_def)
qed

lemma accumulate_word_nonneg:
  assumes "accumulate_word s p idf freqs rel = Inr rel'" "0 \<le> idf"
    "\<forall>e\<in>set freqs. 0 < snd e" "\<forall>e\<in>set rel. 0 \<le> snd e"
  shows "\<forall>e\<in>set rel'. 0 \<le> snd e"
  using assms(1,3,4)
proof (induction freqs arbitrary: rel)
  case Nil
  then show ?case by simp
next
  case (Cons e freqs)
  obtain i tf where e: "e = (i, tf)" by (cases e)
  from Cons.prems(1) e obtain info where info: "map_of (documents s) i = Some info"
    by (auto split: option.splits)
  let ?rel = "if p i (status info) (rating info)
              then map_modify i 0 (\<lambda>r. r + tf * idf) rel else rel"
  from Cons.prems(1) e info have step: "accumulate_word s p idf freqs ?rel = Inr rel'"
    by simp
  from Cons.prems(2) e have tf: "0 \<le> tf * idf"
    using assms(2) by simp
  have "0 \<le> snd x" if "x \<in> set (map_modify i 0 (\<lambda>r. r + tf * idf) rel)" for x
    using set_map_modify_cases[OF that] Cons.prems(3) tf by force
  with Cons.prems(3) have "\<forall>x\<in>set ?rel. 0 \<le> snd x" by simp
  from Cons.IH[OF step _ this] Cons.prems(2) show ?case by simp
qed

lemma plus_words_loop_nonneg:
  assumes "index_ok s" "plus_words_loop s p ws rel = Inr rel'" "\<forall>e\<in>set rel. 0 \<le> snd e"
  shows "\<forall>e\<in>set rel'. 0 \<le> snd e"
  using assms(2,3)
proof (induction ws arbitrary: rel)
  case Nil
  then show ?case by simp
next
  case (Cons w ws)
  show ?case
  proof (cases "map_of (word_to_document_freqs s) w")
    case None
    with Cons show ?thesis by simp
  next
    case (Some freqs)
    from idf_nonneg[OF assms(1) Some] obtain idf where
      idf: "ComputeWordInverseDocumentFreq s w = Inr idf" "0 \<le> idf" by blast
    from Cons.prems(1) Some idf obtain rel1 where
      1: "accumulate_word s p idf freqs rel = Inr rel1" and
      2: "plus_words_loop s p ws rel1 = Inr rel'"
      by (auto split: sum.splits)
    from index_ok_posting[OF assms(1) Some] have "\<forall>e\<in>set freqs. 0 < snd e"
      using posting_ok_positive by blast
    from accumulate_word_nonneg[OF 1 idf(2) this Cons.prems(2)] Cons.IH[OF 2]
    show ?thesis by blast
  qed
qed

lemma FindAllDocuments_nonneg:
  assumes "index_ok s" "FindAllDocuments s query p = Inr docs"
  shows "\<forall>d\<in>set docs. 0 \<le> doc_relevance d"
proof -
  from assms(2) obtain rel where
    1: "plus_words_loop s p (plus_words query) [] = Inr rel" and
    2: "matched_documents_loop s (minus_words_loop s (minus_words query) rel) [] = Inr docs"
    by (auto simp: FindAllDocuments_def split: sum.splits)
  from plus_words_loop_nonneg[OF assms(1) 1] have "\<forall>e\<in>set rel. 0 \<le> snd e" by simp
  with set_minus_words_loop[of s "minus_words query" rel]
  have nn: "\<forall>e\<in>set (minus_words_loop s (minus_words query) rel). 0 \<le> snd e" by blast
  from matched_documents_loop_fields[OF 2]
  have "(\<lambda>d. (doc_id d, doc_relevance d)) ` set docs
          = set (minus_words_loop s (minus_words query) rel)"
    by (metis append_Nil list.simps(8) set_map)
  with nn show ?thesis by force
qed

lemma FindTopDocuments_nonneg:
  assumes "index_ok s" "FindTopDocuments s q p = Inr docs"
  shows "\<forall>d\<in>set docs. 0 \<le> doc_relevance d"
proof -
  from assms(2) obtain query found where
    f: "FindAllDocuments s query p = Inr found" and
    d: "docs = take MAX_RESULT_DOCUMENT_COUNT (std_sort relevance_before found)"
    by (rule FindTopDocuments_Inr)
  have "set docs \<subseteq> set found"
    unfolding d using set_take_subset[of MAX_RESULT_DOCUMENT_COUNT "std_sort relevance_before found"]
    by (simp add: set_std_sort)
  with FindAllDocuments_nonneg[OF assms(1) f] show ?thesis by blast
qed

lemma never_posted_word: "never_posted i s \<Longrightarrow> \<not> word_in_document s w i"
  by (auto simp: never_posted_def word_in_document_def list_all_iff
      split: option.splits dest!: map_of_SomeD)

lemma index_ok_never_posted:
  assumes "index_ok s" "\<not> map_count (documents s) i"
  shows "never_posted i s"
  unfolding never_posted_def list_all_iff
proof
  fix e assume "e \<in> set (word_to_document_freqs s)"
  with assms(1) have "posting_ok s (snd e)"
    by (simp add: index_ok_def list_all_iff)
  with assms(2) show "\<not> map_count (snd e) i"
    using posting_ok_document[of s "snd e"] by (auto simp: map_count_iff)
qed

lemma never_posted_AddDocument:
  assumes "never_posted i s" "map_count (documents s) i"
  shows "never_posted i (snd (AddDocument s j doc st rs))"
    and "map_count (documents (snd (AddDocument s j doc st rs))) i"
proof -
  have "never_posted i (snd (AddDocument s j doc st rs))
        \<and> map_count (documents (snd (AddDocument s j doc st rs))) i"
  proof (cases "fst (AddDocument s j doc st rs)")
    case (Some e)
    then have "snd (AddDocument s j doc st rs) = s"
      by (intro AddDocument_fail_state) simp
    with assms show ?thesis by simp
  next
    case None
    then obtain words where
      j: "\<not> map_count (documents s) j" and
      s': "snd (AddDocument s j doc st rs) =
         s\<lparr>word_to_document_freqs :=
              fold (add_word j (1 / real (length words))) words (word_to_document_freqs s),
            documents := map_emplace j \<lparr>rating = ComputeAverageRating rs, status = st\<rparr> (documents s),
            document_ids := document_ids s @ [j]\<rparr>"
      by (rule AddDocument_success)
    from j assms(2) have ne: "i \<noteq> j" by blast
    have old: "\<forall>e\<in>set (word_to_document_freqs s). \<not> map_count (snd e) i"
      using assms(1) by (simp add: never_posted_def list_all_iff)
    have "\<forall>e\<in>set (fold (add_word j (1 / real (length words))) words (word_to_document_freqs s)).
            \<not> map_count (snd e) i"
      by (rule fold_add_word_all[OF old]) (use ne in \<open>simp_all add: map_count_iff keys_map_modify\<close>)
    then show ?thesis
      using assms(2) by (simp add: s' never_posted_def list_all_iff map_count_emplace)
  qed
  then show "never_posted i (snd (AddDocument s j doc st rs))"
    and "map_count (documents (snd (AddDocument s j doc st rs))) i" by simp_all
qed

lemma never_posted_add_documents:
  "never_posted i s \<Longrightarrow> map_count (documents s) i \<Longrightarrow> never_posted i (add_documents s calls)"
  by (induction s calls rule: add_documents.induct) (auto simp: never_posted_AddDocument)

lemma SplitIntoWordsNoStop_all_stop:
  assumes "\<forall>token\<in>set (SplitIntoWords doc). IsValidWord token \<and> IsStopWord s token"
  shows "SplitIntoWordsNoStop s doc = Inr []"
proof -
  from assms have "filter (\<lambda>w. \<not> IsStopWord s w) (SplitIntoWords doc) = []"
    by (simp add: filter_empty_conv)
  with assms show ?thesis
    by (simp add: SplitIntoWordsNoStop_def SplitIntoWordsNoStop_loop_valid)
qed

lemma accumulate_word_returns:
  "\<forall>e\<in>set freqs. map_count (documents s) (fst e) \<Longrightarrow>
   \<exists>rel'. accumulate_word s p idf freqs rel = Inr rel'"
  by (induction freqs arbitrary: rel) (auto simp: map_count_def)

lemma plus_words_loop_returns:
  assumes "index_ok s"
  shows "\<exists>rel'. plus_words_loop s p ws rel = Inr rel'"
proof (induction ws arbitrary: rel)
  case Nil
  show ?case by simp
next
  case (Cons w ws)
  show ?case
  proof (cases "map_of (word_to_document_freqs s) w")
    case None
    with Cons show ?thesis by simp
  next
    case (Some freqs)
    from idf_nonneg[OF assms Some] obtain idf where
      idf: "ComputeWordInverseDocumentFreq s w = Inr idf" by blast
    have "\<forall>e\<in>set freqs. map_count (documents s) (fst e)"
      using index_ok_posting[OF assms Some] posting_ok_document by blast
    from accumulate_word_returns[OF this, of p idf rel] obtain rel1 where
      "accumulate_word s p idf freqs rel = Inr rel1" by blast
    with Some idf Cons[of rel1] show ?thesis by simp
  qed
qed

lemma matched_documents_loop_returns:
  "\<forall>e\<in>set rel. map_count (documents s) (fst e) \<Longrightarrow>
   \<exists>docs. matched_documents_loop s rel acc = Inr docs"
  by (induction rel arbitrary: acc) (auto simp: map_count_def)

text \<open>On a server built by the constructor and \<^verbatim>\<open>AddDocument\<close>, a parsed query is always answered.\<close>

lemma FindTopDocuments_returns:
  assumes "SearchServer_ctor stop_list = Inr s0" "s = add_documents s0 calls"
    "IsValidWord q" "ParseQuery s q = Inr query"
  shows "\<exists>docs. FindTopDocuments s q p = Inr docs"
proof -
  from assms(1,2) have ok: "index_ok s"
    by (simp add: index_ok_ctor index_ok_add_documents)
  from plus_words_loop_returns[OF ok, of p "plus_words query" "[]"] obtain rel where
    rel: "plus_words_loop s p (plus_words query) [] = Inr rel" by blast
  from keys_plus_words_loop[OF rel] have "\<forall>e\<in>set rel. accepted s p (fst e)"
    by auto
  then have "\<forall>e\<in>set rel. map_count (documents s) (fst e)"
    by (auto simp: accepted_def map_count_def split: option.splits)
  with set_minus_words_loop[of s "minus_words query" rel]
  have "\<forall>e\<in>set (minus_words_loop s (minus_words query) rel). map_count (documents s) (fst e)"
    by blast
  from matched_documents_loop_returns[OF this, of "[]"] obtain found where
    "matched_documents_loop s (minus_words_loop s (minus_words query) rel) [] = Inr found"
    by blast
  with rel have "FindAllDocuments s query p = Inr found"
    by (simp add: FindAllDocuments_def)
  with assms(3,4) show ?thesis
    by (simp add: FindTopDocuments_def Let_def)
qed

section \<open>Examples\<close>

lemmas parse_eval = ParseQuery_def ParseQueryWord_def starts_with_minus_def IsStopWord_def
lemmas find_eval = FindTopDocuments_def FindAllDocuments_def ComputeWordInverseDocumentFreq_def
  GetDocumentCount_def map_erase_def std_sort_def relevance_before_def double_epsilon_def
  MAX_RESULT_DOCUMENT_COUNT_def any_document_def

lemmas add_eval = AddDocument_def map_count_def SplitIntoWordsNoStop_def IsStopWord_def
  add_word_def ComputeAverageRating_def Let_def

lemma SearchServer_ctor_Nil: "SearchServer_ctor [] = Inr no_documents"
  by (simp add: SearchServer_ctor_def MakeUniqueNonEmptyStrings_def no_documents_def)

lemma SearchServer_ctor_stop: "SearchServer_ctor [''the'', ''in'', ''''] = Inr stop_word_server"
  by (simp add: SearchServer_ctor_def MakeUniqueNonEmptyStrings_def stop_word_server_def valid_eval)





lemma words_two_documents:
  "word_in_document two_documents ''cat'' 0" "word_in_document two_documents ''dog'' 0"
  "word_in_document two_documents ''cat'' 1" "\<not> word_in_document two_documents ''dog'' 1"
  "word_in_document two_documents ''mouse'' 1" "\<not> word_in_document two_documents ''mouse'' 0"
  by (simp_all add: word_in_document_def two_documents_eq map_count_def)

lemma find_mouse:
  "FindTopDocuments two_documents ''mouse'' any_document
     = Inr [\<lparr>doc_id = 1, doc_relevance = ln 2 / 3, doc_rating = 5\<rparr>]"
  by (simp add: find_eval split_eval valid_eval parse_eval two_documents_eq)




lemma find_dog_mouse_minus_dog:
  "FindTopDocuments two_documents ''dog mouse -dog'' any_document
     = Inr [\<lparr>doc_id = 1, doc_relevance = ln 2 / 3, doc_rating = 5\<rparr>]"
  by (simp add: find_eval split_eval valid_eval parse_eval two_documents_eq)

lemma ParseQuery_dog_mouse_minus_dog:
  "ParseQuery two_documents ''dog mouse -dog''
     = Inr \<lparr>plus_words = [''dog'', ''mouse''], minus_words = [''dog'']\<rparr>"
  by (simp add: split_eval valid_eval parse_eval two_documents_eq)

lemma stop_word_server_add:
  "snd (AddDocument stop_word_server 0 ''in the in'' ACTUAL []) =
     \<lparr>stop_words = [''in'', ''the''], word_to_document_freqs = [],
      documents = [(0, \<lparr>rating = 0, status = ACTUAL\<rparr>)], document_ids = [0]\<rparr>"
  by (simp add: stop_word_server_def add_eval split_eval valid_eval)

lemma stop_word_server_later:
  "add_documents (snd (AddDocument stop_word_server 0 ''in the in'' ACTUAL []))
      [(0, ''dog'', ACTUAL, [1]), (1, ''cat in'', ACTUAL, [3])] =
     \<lparr>stop_words = [''in'', ''the''], word_to_document_freqs = [(''cat'', [(1, 1)])],
      documents = [(0, \<lparr>rating = 0, status = ACTUAL\<rparr>), (1, \<lparr>rating = 3, status = ACTUAL\<rparr>)],
      document_ids = [0, 1]\<rparr>"
  by (simp add: stop_word_server_add) (simp add: add_eval split_eval valid_eval)

lemma find_after_stop_words:
  "FindTopDocuments
     (add_documents (snd (AddDocument stop_word_server 0 ''in the in'' ACTUAL []))
        [(0, ''dog'', ACTUAL, [1]), (1, ''cat in'', ACTUAL, [3])])
     ''cat in'' any_document
     = Inr [\<lparr>doc_id = 1, doc_relevance = ln 2, doc_rating = 3\<rparr>]"
  unfolding stop_word_server_later
  by (simp add: find_eval split_eval valid_eval parse_eval)




section \<open>What the index holds\<close>

lemma map_of_sorted_less:
  fixes k :: "'k::linorder"
  shows "\<forall>e\<in>set m. k < fst e \<Longrightarrow> map_of m k = None"
  by (induction m) auto

lemma map_of_map_modify:
  "sorted_wrt (<) (map fst m) \<Longrightarrow>
   map_of (map_modify k d f m) k' =
     (if k' = k then Some (f (case map_of m k of None \<Rightarrow> d | Some v \<Rightarrow> v)) else map_of m k')"
proof (induction m)
  case Nil
  show ?case by simp
next
  case (Cons e m)
  obtain k0 v0 where e: "e = (k0, v0)" by (cases e)
  show ?case
  proof (cases "k < k0")
    case True
    with Cons.prems e have "\<forall>x\<in>set (e # m). k < fst x" by auto
    from map_of_sorted_less[OF this] True e show ?thesis by simp
  next
    case False
    with Cons e show ?thesis by auto
  qed
qed

lemma word_in_document_add_word:
  assumes "sorted_wrt (<) (map fst (word_to_document_freqs s))"
  shows "word_in_document (s\<lparr>word_to_document_freqs := add_word j c w' (word_to_document_freqs s)\<rparr>) w i
           \<longleftrightarrow> word_in_document s w i \<or> (w = w' \<and> i = j)"
  unfolding word_in_document_def add_word_def
  by (auto simp: map_of_map_modify[OF assms] map_count_iff keys_map_modify split: option.splits)

lemma word_in_document_fold_add_word:
  assumes "sorted_wrt (<) (map fst (word_to_document_freqs s))"
  shows "word_in_document
           (s\<lparr>word_to_document_freqs := fold (add_word j c) words (word_to_document_freqs s)\<rparr>) w i
           \<longleftrightarrow> word_in_document s w i \<or> (w \<in> set words \<and> i = j)"
  using assms
proof (induction words arbitrary: s)
  case Nil
  show ?case by simp
next
  case (Cons w' words)
  let ?s = "s\<lparr>word_to_document_freqs := add_word j c w' (word_to_document_freqs s)\<rparr>"
  have "sorted_wrt (<) (map fst (word_to_document_freqs ?s))"
    using Cons.prems by (simp add: add_word_def map_fst_map_modify sorted_set_insert)
  from Cons.IH[OF this] word_in_document_add_word[OF Cons.prems, of j c w' w i]
  show ?case by auto
qed

lemma word_in_document_other_fields:
  "word_in_document (s\<lparr>documents := d, document_ids := l\<rparr>) w i = word_in_document s w i"
  by (simp add: word_in_document_def)

text \<open>
  A call of \<^verbatim>\<open>AddDocument\<close> that does not throw posts the document under each of its
  tokens that is not a stop word, and changes nothing else in the posting lists; a call
  that throws changes nothing.
\<close>

lemma word_in_document_AddDocument:
  assumes "index_ok s"
  shows "word_in_document (snd (AddDocument s j doc st rs)) w i
           \<longleftrightarrow> word_in_document s w i
               \<or> (fst (AddDocument s j doc st rs) = None \<and> i = j
                   \<and> w \<in> set (SplitIntoWords doc) \<and> \<not> IsStopWord s w)"
proof (cases "fst (AddDocument s j doc st rs)")
  case (Some e)
  then have "snd (AddDocument s j doc st rs) = s"
    by (intro AddDocument_fail_state) simp
  with Some show ?thesis by simp
next
  case None
  then obtain words where
    words: "SplitIntoWordsNoStop s doc = Inr words" and
    s': "snd (AddDocument s j doc st rs) =
       s\<lparr>word_to_document_freqs :=
            fold (add_word j (1 / real (length words))) words (word_to_document_freqs s),
          documents := map_emplace j \<lparr>rating = ComputeAverageRating rs, status = st\<rparr> (documents s),
          document_ids := document_ids s @ [j]\<rparr>"
    by (rule AddDocument_success)
  have valid: "\<forall>t\<in>set (SplitIntoWords doc). IsValidWord t"
  proof (rule ccontr)
    assume "\<not> (\<forall>t\<in>set (SplitIntoWords doc). IsValidWord t)"
    then have "SplitIntoWordsNoStop s doc = Inl InvalidText"
      unfolding SplitIntoWordsNoStop_def by (intro SplitIntoWordsNoStop_loop_invalid) blast
    with words show False by simp
  qed
  from words have "words = filter (\<lambda>t. \<not> IsStopWord s t) (SplitIntoWords doc)"
    by (simp add: SplitIntoWordsNoStop_def SplitIntoWordsNoStop_loop_valid[OF valid])
  then have "w \<in> set words \<longleftrightarrow> w \<in> set (SplitIntoWords doc) \<and> \<not> IsStopWord s w"
    by auto
  moreover have "sorted_wrt (<) (map fst (word_to_document_freqs s))"
    using assms by (simp add: index_ok_def)
  from word_in_document_fold_add_word[OF this, of j "1 / real (length words)" words w i]
  have "word_in_document (snd (AddDocument s j doc st rs)) w i
          \<longleftrightarrow> word_in_document s w i \<or> (w \<in> set words \<and> i = j)"
    unfolding s' by (simp add: word_in_document_def)
  ultimately show ?thesis using None by auto
qed

section \<open>The claims on finding documents\<close>






text \<open>
  C2. Let \<^verbatim>\<open>FindTopDocuments\<close> return a list for a query. No document of the list is in the
  posting list of a minus-word of the query, whatever the predicate is: the loop over the
  minus-words (\<open>minus_words_loop\<close>) erases by document id and does not take the predicate.
  Every document of the list is in the posting list of some plus-word, so a document that
  no plus-word matches is never returned, whether the predicate holds of it or not; and
  every document of the list was accepted by the predicate when it was accumulated.
\<close>

theorem minus_words_exclude:
  "FindTopDocuments s q p = Inr docs \<Longrightarrow> ParseQuery s q = Inr query \<Longrightarrow>
   (\<forall>d\<in>set docs.
      (\<forall>w\<in>set (minus_words query). \<not> word_in_document s w (doc_id d))
      \<and> (\<exists>w\<in>set (plus_words query). word_in_document s w (doc_id d))
      \<and> accepted s p (doc_id d))"
  using FindTopDocuments_ids[of s q p docs query] by blast

theorem minus_words_exclude_witness:
  "FindTopDocuments two_documents ''dog mouse -dog'' any_document
     = Inr [\<lparr>doc_id = 1, doc_relevance = ln 2 / 3, doc_rating = 5\<rparr>]
   \<and> ParseQuery two_documents ''dog mouse -dog''
        = Inr \<lparr>plus_words = [''dog'', ''mouse''], minus_words = [''dog'']\<rparr>
   \<and> word_in_document two_documents ''dog'' 0
   \<and> \<not> word_in_document two_documents ''dog'' 1
   \<and> word_in_document two_documents ''mouse'' 1
   \<and> accepted two_documents any_document 1"
proof -
  note t = minus_words_exclude[OF find_dog_mouse_minus_dog ParseQuery_dog_mouse_minus_dog]
  from t have "\<not> word_in_document two_documents ''dog'' 1"
    and "accepted two_documents any_document 1" by simp_all
  moreover from t words_two_documents(4) have "word_in_document two_documents ''mouse'' 1"
    by simp
  ultimately show ?thesis
    using find_dog_mouse_minus_dog ParseQuery_dog_mouse_minus_dog words_two_documents(2)
    by blast
qed

text \<open>
  C10. Let a query parse, and let a token \<open>w\<close> that is not a stop word occur in it both
  plain and with a leading \<open>-\<close>. Then \<open>w\<close> is among the plus-words and among the minus-words
  of the parsed query, and no document that \<^verbatim>\<open>FindTopDocuments\<close> returns for the query has
  \<open>w\<close> among its indexed words. (By \<open>word_in_document_AddDocument\<close> the indexed words of a
  document are its tokens that are not stop words.)
\<close>

theorem plus_and_minus_word_excluded:
  "ParseQuery s q = Inr query \<Longrightarrow>
   w \<in> set (SplitIntoWords q) \<Longrightarrow> CHR ''-'' # w \<in> set (SplitIntoWords q) \<Longrightarrow>
   \<not> IsStopWord s w \<Longrightarrow>
   w \<in> set (plus_words query) \<and> w \<in> set (minus_words query)
   \<and> (\<forall>p docs. FindTopDocuments s q p = Inr docs \<longrightarrow>
         (\<forall>d\<in>set docs. \<not> word_in_document s w (doc_id d)))"
proof -
  assume a: "ParseQuery s q = Inr query" "w \<in> set (SplitIntoWords q)"
    "CHR ''-'' # w \<in> set (SplitIntoWords q)" "\<not> IsStopWord s w"
  note pm = plus_and_minus_word[OF a]
  have "\<not> word_in_document s w (doc_id d)"
    if "FindTopDocuments s q p = Inr docs" "d \<in> set docs" for p docs d
    using FindTopDocuments_ids[OF that(1) a(1)] that(2) pm(2) by blast
  with pm show ?thesis by blast
qed

theorem plus_and_minus_word_excluded_witness:
  "ParseQuery two_documents ''dog mouse -dog''
     = Inr \<lparr>plus_words = [''dog'', ''mouse''], minus_words = [''dog'']\<rparr>
   \<and> ''dog'' \<in> set (SplitIntoWords ''dog mouse -dog'')
   \<and> ''-dog'' \<in> set (SplitIntoWords ''dog mouse -dog'')
   \<and> \<not> IsStopWord two_documents ''dog''
   \<and> ''dog'' \<in> set [''dog'', ''mouse''] \<and> ''dog'' \<in> set [''dog'']
   \<and> FindTopDocuments two_documents ''dog mouse -dog'' any_document
        = Inr [\<lparr>doc_id = 1, doc_relevance = ln 2 / 3, doc_rating = 5\<rparr>]
   \<and> word_in_document two_documents ''dog'' 0
   \<and> \<not> word_in_document two_documents ''dog'' 1"
proof -
  have tok: "''dog'' \<in> set (SplitIntoWords ''dog mouse -dog'')"
    "CHR ''-'' # ''dog'' \<in> set (SplitIntoWords ''dog mouse -dog'')"
    by (simp_all add: split_eval)
  have stop: "\<not> IsStopWord two_documents ''dog''"
    by (simp add: IsStopWord_def two_documents_eq)
  note t = plus_and_minus_word_excluded[OF ParseQuery_dog_mouse_minus_dog tok stop]
  from t find_dog_mouse_minus_dog have "\<not> word_in_document two_documents ''dog'' 1"
    by fastforce
  with t tok stop show ?thesis
    using ParseQuery_dog_mouse_minus_dog find_dog_mouse_minus_dog words_two_documents(2)
    by simp
qed

text \<open>
  C8. Let the server be built by the constructor and any calls of \<^verbatim>\<open>AddDocument\<close>. Every
  posting list is then not empty and no longer than the number of documents, and its
  term frequencies are positive; so the inverse document frequency of every indexed word,
  the logarithm of the document count over the length of the posting list, is not
  negative, and neither is any relevance in a list that \<^verbatim>\<open>FindTopDocuments\<close> returns, a sum
  of products of the two. (Relevance is computed in the reals.)
\<close>

theorem relevance_nonneg:
  "SearchServer_ctor stop_list = Inr s0 \<Longrightarrow> s = add_documents s0 calls \<Longrightarrow>
   (\<forall>w freqs. map_of (word_to_document_freqs s) w = Some freqs \<longrightarrow>
      0 < length freqs \<and> int (length freqs) \<le> GetDocumentCount s
      \<and> (\<forall>e\<in>set freqs. 0 < snd e)
      \<and> (\<exists>idf. ComputeWordInverseDocumentFreq s w = Inr idf \<and> 0 \<le> idf))
   \<and> (\<forall>q p docs. FindTopDocuments s q p = Inr docs \<longrightarrow> (\<forall>d\<in>set docs. 0 \<le> doc_relevance d))"
proof -
  assume "SearchServer_ctor stop_list = Inr s0" "s = add_documents s0 calls"
  then have ok: "index_ok s"
    by (simp add: index_ok_ctor index_ok_add_documents)
  have a: "0 < length freqs \<and> int (length freqs) \<le> GetDocumentCount s
      \<and> (\<forall>e\<in>set freqs. 0 < snd e)
      \<and> (\<exists>idf. ComputeWordInverseDocumentFreq s w = Inr idf \<and> 0 \<le> idf)"
    if "map_of (word_to_document_freqs s) w = Some freqs" for w freqs
  proof -
    from ok that have p: "posting_ok s freqs"
      by (rule index_ok_posting)
    then have "\<forall>e\<in>set freqs. 0 < snd e"
      using posting_ok_positive by blast
    with posting_length[OF p] idf_nonneg[OF ok that] show ?thesis
      by (simp add: GetDocumentCount_def)
  qed
  from a FindTopDocuments_nonneg[OF ok] show ?thesis by blast
qed

theorem relevance_nonneg_witness:
  "SearchServer_ctor [] = Inr no_documents
   \<and> map_of (word_to_document_freqs two_documents) ''mouse'' = Some [(1, 1 / 3)]
   \<and> ComputeWordInverseDocumentFreq two_documents ''mouse'' = Inr (ln 2)
   \<and> (0 :: real) \<le> ln 2
   \<and> FindTopDocuments two_documents ''mouse'' any_document
        = Inr [\<lparr>doc_id = 1, doc_relevance = ln 2 / 3, doc_rating = 5\<rparr>]
   \<and> (0 :: real) \<le> ln 2 / 3"
proof -
  note t = relevance_nonneg[OF SearchServer_ctor_Nil two_documents_def]
  have m: "map_of (word_to_document_freqs two_documents) ''mouse'' = Some [(1, 1 / 3)]"
    by (simp add: two_documents_eq)
  have i: "ComputeWordInverseDocumentFreq two_documents ''mouse'' = Inr (ln 2)"
    by (simp add: ComputeWordInverseDocumentFreq_def GetDocumentCount_def two_documents_eq)
  from t m i have "(0 :: real) \<le> ln 2" by fastforce
  moreover from t find_mouse have "(0 :: real) \<le> ln 2 / 3" by fastforce
  ultimately show ?thesis
    using SearchServer_ctor_Nil m i find_mouse by blast
qed

text \<open>
  C9. Let the server be built by the constructor and any calls of \<^verbatim>\<open>AddDocument\<close>, and let
  a text have valid stop words as its only tokens, or no token at all. With an id that
  is not negative and not yet used, \<^verbatim>\<open>AddDocument\<close> does not throw: it leaves the posting
  lists as they are (the quotient by the word count 0 is never stored), enters the document
  in \<^verbatim>\<open>documents_\<close> and raises the document count by one. Whatever documents are added
  later, no call of \<^verbatim>\<open>FindTopDocuments\<close> returns the document.
\<close>

theorem document_without_words:
  "SearchServer_ctor stop_list = Inr s0 \<Longrightarrow> s = add_documents s0 calls \<Longrightarrow>
   0 \<le> i \<Longrightarrow> \<not> map_count (documents s) i \<Longrightarrow>
   \<forall>token\<in>set (SplitIntoWords doc). IsValidWord token \<and> IsStopWord s token \<Longrightarrow>
   s' = snd (AddDocument s i doc st rs) \<Longrightarrow>
   fst (AddDocument s i doc st rs) = None
   \<and> word_to_document_freqs s' = word_to_document_freqs s
   \<and> map_of (documents s') i = Some \<lparr>rating = ComputeAverageRating rs, status = st\<rparr>
   \<and> GetDocumentCount s' = GetDocumentCount s + 1
   \<and> (\<forall>later q p docs. FindTopDocuments (add_documents s' later) q p = Inr docs \<longrightarrow>
         i \<notin> doc_id ` set docs)"
proof -
  assume reach: "SearchServer_ctor stop_list = Inr s0" "s = add_documents s0 calls"
    and i: "0 \<le> i" "\<not> map_count (documents s) i"
    and stop: "\<forall>token\<in>set (SplitIntoWords doc). IsValidWord token \<and> IsStopWord s token"
    and s': "s' = snd (AddDocument s i doc st rs)"
  from reach have ok: "index_ok s"
    by (simp add: index_ok_ctor index_ok_add_documents)
  have add: "AddDocument s i doc st rs =
      (None, s\<lparr>documents := map_emplace i \<lparr>rating = ComputeAverageRating rs, status = st\<rparr> (documents s),
                document_ids := document_ids s @ [i]\<rparr>)"
    using i SplitIntoWordsNoStop_all_stop[OF stop] by (simp add: AddDocument_def)
  have a: "fst (AddDocument s i doc st rs) = None" by (simp add: add)
  have b: "word_to_document_freqs s' = word_to_document_freqs s" by (simp add: s' add)
  have c: "map_of (documents s') i = Some \<lparr>rating = ComputeAverageRating rs, status = st\<rparr>"
    using i(2) by (simp add: s' add map_of_map_emplace)
  have d: "GetDocumentCount s' = GetDocumentCount s + 1"
    unfolding s' using a by (rule AddDocument_ok_count)
  have np: "never_posted i s'"
    using index_ok_never_posted[OF ok i(2)] b by (simp add: never_posted_def)
  have "map_count (documents s') i"
    using c by (simp add: map_count_def)
  with np have later: "never_posted i (add_documents s' later)" for later
    by (rule never_posted_add_documents)
  have e: "i \<notin> doc_id ` set docs"
    if "FindTopDocuments (add_documents s' later) q p = Inr docs" for later q p docs
  proof -
    from that obtain query where "ParseQuery (add_documents s' later) q = Inr query"
      by (rule FindTopDocuments_Inr)
    from FindTopDocuments_ids[OF that this] never_posted_word[OF later[of later]]
    show ?thesis by blast
  qed
  from a b c d e show ?thesis by blast
qed

theorem document_without_words_witness:
  "SearchServer_ctor [''the'', ''in'', ''''] = Inr stop_word_server
   \<and> fst (AddDocument stop_word_server 0 ''in the in'' ACTUAL []) = None
   \<and> word_to_document_freqs (snd (AddDocument stop_word_server 0 ''in the in'' ACTUAL [])) = []
   \<and> GetDocumentCount (snd (AddDocument stop_word_server 0 ''in the in'' ACTUAL [])) = 1
   \<and> FindTopDocuments
        (add_documents (snd (AddDocument stop_word_server 0 ''in the in'' ACTUAL []))
           [(0, ''dog'', ACTUAL, [1]), (1, ''cat in'', ACTUAL, [3])])
        ''cat in'' any_document
        = Inr [\<lparr>doc_id = 1, doc_relevance = ln 2, doc_rating = 3\<rparr>]
   \<and> 0 \<notin> doc_id ` set [\<lparr>doc_id = 1, doc_relevance = ln 2, doc_rating = 3\<rparr>]"
proof -
  have reach: "stop_word_server = add_documents stop_word_server []" by simp
  have fresh: "(0 :: int) \<le> 0" "\<not> map_count (documents stop_word_server) 0"
    by (simp_all add: stop_word_server_def map_count_def)
  have stop: "\<forall>token\<in>set (SplitIntoWords ''in the in'').
                IsValidWord token \<and> IsStopWord stop_word_server token"
    by (simp add: split_eval valid_eval IsStopWord_def stop_word_server_def)
  note t = document_without_words[OF SearchServer_ctor_stop reach fresh stop refl,
      of ACTUAL "[]"]
  from t have "fst (AddDocument stop_word_server 0 ''in the in'' ACTUAL []) = None"
    by (rule conjunct1)
  moreover from t
  have "word_to_document_freqs (snd (AddDocument stop_word_server 0 ''in the in'' ACTUAL [])) = []"
    by (simp add: stop_word_server_def)
  moreover from t
  have "GetDocumentCount (snd (AddDocument stop_word_server 0 ''in the in'' ACTUAL [])) = 1"
    by (simp add: GetDocumentCount_def stop_word_server_def)
  moreover from t find_after_stop_words
  have "0 \<notin> doc_id ` set [\<lparr>doc_id = 1, doc_relevance = ln 2, doc_rating = 3\<rparr>]"
    by blast
  ultimately show ?thesis
    using SearchServer_ctor_stop find_after_stop_words by blast
qed

end
